theory Spec2Isabelle
  imports Main "HOL-Library.AList" "HOL-Library.Sublist"
begin

section \<open>Data model of \<^verbatim>\<open>RequestQueue\<close> (src/request-queue.js)\<close>

text \<open>
  Identifiers are JavaScript numbers that only ever hold integers (the counter starts at
  0 and is either incremented by one or reset to 0); they are modelled as \<^typ>\<open>int\<close>,
  which is exact for every magnitude below \<open>2^53\<close>.

  A request item \<^verbatim>\<open>{ id, request }\<close> is a pair of the id and the opaque payload.
\<close>

type_synonym 'p envelope = "int \<times> 'p"

text \<open>
  The two callbacks the class hands to \<^verbatim>\<open>setTimeout\<close>: the timeout callback of
  \<^verbatim>\<open>_tryProcessNext\<close> (bound to \<^verbatim>\<open>currentReq.id\<close>) and the delay callback of
  \<^verbatim>\<open>_scheduleNextProcess\<close>. An armed timer is its handle, its delay and its callback.
\<close>

datatype cb = TimeoutCb int | DelayCb

type_synonym timer = "nat \<times> int \<times> cb"

text \<open>
  What \<^verbatim>\<open>_handleError\<close> receives as \<^verbatim>\<open>error\<close>: the transport's rejection reason (or what
  \<^verbatim>\<open>sendFunction\<close> or a method of the outcome threw), a TypeError, or the
  \<^verbatim>\<open>Error('The response structure is invalid')\<close> of \<^verbatim>\<open>_handleResponse\<close>.
\<close>

datatype 'e failure = Reason 'e | TypeError | InvalidStructure

text \<open>
  The value a transport promise resolves with, seen through what \<^verbatim>\<open>_handleResponse\<close> does
  to it: \<^verbatim>\<open>Nullish\<close> is \<^verbatim>\<open>null\<close>/\<^verbatim>\<open>undefined\<close> (reading \<^verbatim>\<open>.id\<close> throws a TypeError);
  otherwise \<open>is_object\<close> says whether the value is truthy with \<^verbatim>\<open>typeof === 'object'\<close>,
  \<open>id_read\<close> is the result of the property read \<^verbatim>\<open>currentResp.id\<close> (\<open>None\<close> for
  \<^verbatim>\<open>undefined\<close> or anything that is not a number), \<open>own_id\<close> is the outcome of the call
  \<^verbatim>\<open>currentResp.hasOwnProperty('id')\<close> and \<open>own_response\<close> that of
  \<^verbatim>\<open>currentResp.hasOwnProperty('response')\<close>. The method is looked up on the value itself,
  so the call can throw: \<open>Inl\<close> is the exception (a TypeError when the value has no callable
  \<^verbatim>\<open>hasOwnProperty\<close>, as an object without prototype, or what a method of that name
  throws), \<open>Inr\<close> the result: whether it is truthy and, for \<^verbatim>\<open>response\<close>, the property.
\<close>

datatype ('r, 'e) response =
  Nullish
| Value (is_object: bool) (id_read: "int option") (own_id: "'e failure + bool")
    (own_response: "'e failure + 'r option")

text \<open>
  The three events of the class. \<open>Timeout\<close> always carries
  \<^verbatim>\<open>new Error('Request timed out')\<close>, which is therefore not a field.
\<close>

datatype ('p, 'r, 'e) notification =
  Success "('r, 'e) response"
| Timeout int 'p
| Error int 'p "'e failure"

text \<open>
  The observable history: an \<^verbatim>\<open>addRequest(p)\<close> call that returned an id to its caller, an
  invocation of \<^verbatim>\<open>sendFunction\<close>, an \<^verbatim>\<open>emit\<close> call, a \<^verbatim>\<open>console.log\<close> of a caught exception.
\<close>

datatype ('p, 'r, 'e) action =
  Returned int 'p
| Send "'p envelope"
| Emit "('p, 'r, 'e) notification"
| Log string

text \<open>
  What one subscribed listener does when it is called: it may call \<^verbatim>\<open>addRequest\<close> again
  (as the demo's \<^verbatim>\<open>success\<close> listener does) and it may throw afterwards.
\<close>

datatype 'p reaction = Reaction (calls: "'p list") (throws: bool)

text \<open>
  The fields of \<^verbatim>\<open>this\<close> set by the constructor (\<open>maxId\<close> to \<open>requestCounter\<close>), followed by
  the part of the runtime the class talks to: the armed timers and the next timer handle,
  the microtasks \<^verbatim>\<open>() => this.sendFunction(currentReq)\<close> that have been scheduled with
  \<^verbatim>\<open>Promise.resolve().then\<close> and not run yet, the transport calls that are awaiting their
  outcome, and the history. \<open>activeRequests\<close> is the \<^verbatim>\<open>Map\<close> from id to
  \<^verbatim>\<open>{ timer, requestData }\<close>, in insertion order.
\<close>

record ('p, 'r, 'e) state =
  maxId :: int
  timeoutDuration :: int
  sendingDelay :: "int option"
  queue :: "'p envelope list"
  activeRequests :: "(int \<times> nat \<times> 'p) list"
  isProcessing :: bool
  isDelaying :: bool
  requestCounter :: int
  timers :: "timer list"
  nextHandle :: nat
  sendJobs :: "'p envelope list"
  inflight :: "'p envelope list"
  trace :: "('p, 'r, 'e) action list"

text \<open>
  The state the constructor leaves. Its argument \<^verbatim>\<open>sendFunction\<close> (and the check that it is
  a function) has no counterpart here: what the transport does is given by the steps of
  the event loop below.
\<close>

definition init :: "int \<Rightarrow> int \<Rightarrow> int option \<Rightarrow> ('p, 'r, 'e) state" where
  "init N td sd =
     \<lparr> maxId = N, timeoutDuration = td, sendingDelay = sd, queue = [], activeRequests = [],
       isProcessing = False, isDelaying = False, requestCounter = 0,
       timers = [], nextHandle = 0, sendJobs = [], inflight = [], trace = [] \<rparr>"

section \<open>Runtime primitives\<close>

definition setTimeout :: "cb \<Rightarrow> int \<Rightarrow> ('p, 'r, 'e) state \<Rightarrow> nat \<times> ('p, 'r, 'e) state" where
  "setTimeout c d st =
     (nextHandle st,
      st\<lparr>timers := timers st @ [(nextHandle st, d, c)], nextHandle := Suc (nextHandle st)\<rparr>)"

definition clearTimeout :: "nat \<Rightarrow> ('p, 'r, 'e) state \<Rightarrow> ('p, 'r, 'e) state" where
  "clearTimeout h st = st\<lparr>timers := filter (\<lambda>t. fst t \<noteq> h) (timers st)\<rparr>"

definition console_log :: "string \<Rightarrow> ('p, 'r, 'e) state \<Rightarrow> ('p, 'r, 'e) state" where
  "console_log s st = st\<lparr>trace := trace st @ [Log s]\<rparr>"

section \<open>The methods of the class\<close>

definition generateId :: "('p, 'r, 'e) state \<Rightarrow> int \<times> ('p, 'r, 'e) state" where
  "generateId st =
     (let st' = (if requestCounter st < maxId st
                 then st\<lparr>requestCounter := requestCounter st + 1\<rparr>
                 else st\<lparr>requestCounter := 0\<rparr>)
      in (requestCounter st', st'))"

text \<open>
  \<^verbatim>\<open>_tryProcessNext\<close>. The promise chain at its end only schedules a microtask: the call of
  \<^verbatim>\<open>sendFunction\<close> itself happens in a later step of the event loop.
\<close>

definition tryProcessNext :: "('p, 'r, 'e) state \<Rightarrow> ('p, 'r, 'e) state" where
  "tryProcessNext st =
     (if isProcessing st \<or> isDelaying st then st
      else if length (queue st) = 0 then st
      else
        let st1 = st\<lparr>isProcessing := True\<rparr> in
        (case queue st1 of
           [] \<Rightarrow> st1\<lparr>isProcessing := False\<rparr>
         | currentReq # rest \<Rightarrow>
             let st2 = st1\<lparr>queue := rest\<rparr>;
                 (timer, st3) = setTimeout (TimeoutCb (fst currentReq)) (timeoutDuration st2) st2;
                 st4 = st3\<lparr>activeRequests :=
                         AList.update (fst currentReq) (timer, snd currentReq) (activeRequests st3)\<rparr>
             in st4\<lparr>sendJobs := sendJobs st4 @ [currentReq]\<rparr>))"

definition addRequest :: "'p \<Rightarrow> ('p, 'r, 'e) state \<Rightarrow> int \<times> ('p, 'r, 'e) state" where
  "addRequest oRequest st =
     (let (requestId, st1) = generateId st;
          requestItem = (requestId, oRequest);
          st2 = st1\<lparr>queue := queue st1 @ [requestItem]\<rparr>
      in (requestId, tryProcessNext st2))"

definition scheduleNextProcess :: "('p, 'r, 'e) state \<Rightarrow> ('p, 'r, 'e) state" where
  "scheduleNextProcess st =
     (if length (queue st) = 0 then st
      else
        (case sendingDelay st of
           Some d \<Rightarrow>
             if d \<noteq> 0 \<and> d > 0
             then snd (setTimeout DelayCb d (st\<lparr>isDelaying := True\<rparr>))
             else tryProcessNext st
         | None \<Rightarrow> tryProcessNext st))"

text \<open>The arrow function \<^verbatim>\<open>_scheduleNextProcess\<close> passes to \<^verbatim>\<open>setTimeout\<close>.\<close>

definition delayExpired :: "('p, 'r, 'e) state \<Rightarrow> ('p, 'r, 'e) state" where
  "delayExpired st = tryProcessNext (st\<lparr>isDelaying := False\<rparr>)"

text \<open>A caller of \<^verbatim>\<open>addRequest\<close>: it makes the call and is handed the id.\<close>

definition call_addRequest :: "'p \<Rightarrow> ('p, 'r, 'e) state \<Rightarrow> ('p, 'r, 'e) state" where
  "call_addRequest p st =
     (let (requestId, st') = addRequest p st
      in st'\<lparr>trace := trace st' @ [Returned requestId p]\<rparr>)"

text \<open>
  \<^verbatim>\<open>EventEmitter.prototype.emit\<close> (Node's \<^verbatim>\<open>events\<close> module): the listeners of the event are
  called synchronously in subscription order, an exception of one of them propagates to
  the caller of \<^verbatim>\<open>emit\<close> and the remaining listeners are not called; an \<^verbatim>\<open>'error'\<close> event
  with no listener throws. The result says whether \<^verbatim>\<open>emit\<close> threw.
\<close>

fun run_listeners :: "'p reaction list \<Rightarrow> ('p, 'r, 'e) state \<Rightarrow> ('p, 'r, 'e) state \<times> bool" where
  "run_listeners [] st = (st, False)"
| "run_listeners (r # rs) st =
     (let st' = fold call_addRequest (calls r) st
      in if throws r then (st', True) else run_listeners rs st')"

fun is_error :: "('p, 'r, 'e) notification \<Rightarrow> bool" where
  "is_error (Error _ _ _) = True"
| "is_error _ = False"

definition emit ::
  "('p, 'r, 'e) notification \<Rightarrow> 'p reaction list \<Rightarrow> ('p, 'r, 'e) state \<Rightarrow> ('p, 'r, 'e) state \<times> bool"
where
  "emit n obs st =
     (let st1 = st\<lparr>trace := trace st @ [Emit n]\<rparr>
      in if obs = [] then (st1, is_error n) else run_listeners obs st1)"

text \<open>
  The test of \<^verbatim>\<open>_handleResponse\<close>,
  \<^verbatim>\<open>currentResp && typeof currentResp === 'object' && currentResp.hasOwnProperty('id') && currentResp.hasOwnProperty('response')\<close>,
  evaluated from left to right and cut short at the first falsy operand: \<open>Inl\<close> is the
  exception of a \<^verbatim>\<open>hasOwnProperty\<close> call that was reached, \<open>Inr\<close> the truth value.
\<close>

fun shape_test :: "('r, 'e) response \<Rightarrow> 'e failure + bool" where
  "shape_test Nullish = Inr False"
| "shape_test (Value isobj rid ownid resp) =
     (if \<not> isobj then Inr False
      else
        (case ownid of
           Inl thrown \<Rightarrow> Inl thrown
         | Inr has_id \<Rightarrow>
             if \<not> has_id then Inr False
             else
               (case resp of
                  Inl thrown \<Rightarrow> Inl thrown
                | Inr response \<Rightarrow> Inr (response \<noteq> None))))"

text \<open>
  \<^verbatim>\<open>_handleResponse\<close>: \<open>Inl\<close> is the exception it throws. In the three handlers the
  argument \<open>obs\<close> is the list of the listeners subscribed, at the moment of the call, to
  the event the handler emits.
\<close>

definition handleResponse ::
  "('r, 'e) response \<Rightarrow> 'p reaction list \<Rightarrow> ('p, 'r, 'e) state
     \<Rightarrow> 'e failure + ('p, 'r, 'e) state"
where
  "handleResponse currentResp obs st =
     (case currentResp of
        Nullish \<Rightarrow> Inl TypeError
      | Value isobj rid ownid resp \<Rightarrow>
          (case (case rid of None \<Rightarrow> None | Some i \<Rightarrow> map_of (activeRequests st) i) of
             None \<Rightarrow> Inr st
           | Some active \<Rightarrow>
               (case shape_test currentResp of
                  Inl thrown \<Rightarrow> Inl thrown
                | Inr ok \<Rightarrow>
                    if ok then
                      let st1 = clearTimeout (fst active) st;
                          st2 = st1\<lparr>activeRequests := AList.delete (the rid) (activeRequests st1)\<rparr>;
                          (st3, thrown) = emit (Success currentResp) obs st2;
                          st4 = (if thrown then console_log ''emit success'' st3 else st3);
                          st5 = st4\<lparr>isProcessing := False\<rparr>
                      in Inr (scheduleNextProcess st5)
                    else Inl InvalidStructure)))"

definition handleTimeout ::
  "int \<Rightarrow> 'p reaction list \<Rightarrow> ('p, 'r, 'e) state \<Rightarrow> ('p, 'r, 'e) state"
where
  "handleTimeout i obs st =
     (case map_of (activeRequests st) i of
        None \<Rightarrow> st
      | Some active \<Rightarrow>
          let st1 = st\<lparr>activeRequests := AList.delete i (activeRequests st)\<rparr>;
              (st2, thrown) = emit (Timeout i (snd active)) obs st1;
              st3 = (if thrown then console_log ''emit timeout'' st2 else st2);
              st4 = st3\<lparr>isProcessing := False\<rparr>
          in scheduleNextProcess st4)"

definition handleError ::
  "int \<Rightarrow> 'e failure \<Rightarrow> 'p reaction list \<Rightarrow> ('p, 'r, 'e) state \<Rightarrow> ('p, 'r, 'e) state"
where
  "handleError i err obs st =
     (case map_of (activeRequests st) i of
        None \<Rightarrow> st
      | Some active \<Rightarrow>
          let st1 = clearTimeout (fst active) st;
              st2 = st1\<lparr>activeRequests := AList.delete i (activeRequests st1)\<rparr>;
              (st3, thrown) = emit (Error i (snd active) err) obs st2;
              st4 = (if thrown then console_log ''emit error'' st3 else st3);
              st5 = st4\<lparr>isProcessing := False\<rparr>
          in scheduleNextProcess st5)"

text \<open>
  The two continuations of the promise chain in \<^verbatim>\<open>_tryProcessNext\<close>:
  \<^verbatim>\<open>.then((currentResp) => this._handleResponse(currentResp))\<close> followed by
  \<^verbatim>\<open>.catch((error) => this._handleError(currentReq.id, error))\<close>. The \<^verbatim>\<open>catch\<close> also
  receives what the \<^verbatim>\<open>then\<close> callback throws.
\<close>

definition onResolved ::
  "'p envelope \<Rightarrow> ('r, 'e) response \<Rightarrow> 'p reaction list \<Rightarrow> ('p, 'r, 'e) state
     \<Rightarrow> ('p, 'r, 'e) state"
where
  "onResolved currentReq currentResp obs st =
     (case handleResponse currentResp obs st of
        Inr st' \<Rightarrow> st'
      | Inl err \<Rightarrow> handleError (fst currentReq) err obs st)"

definition onRejected ::
  "'p envelope \<Rightarrow> 'e \<Rightarrow> 'p reaction list \<Rightarrow> ('p, 'r, 'e) state \<Rightarrow> ('p, 'r, 'e) state"
where
  "onRejected currentReq err obs st = handleError (fst currentReq) (Reason err) obs st"

definition getQueueSize :: "('p, 'r, 'e) state \<Rightarrow> nat" where
  "getQueueSize st = length (queue st)"

definition getActiveCount :: "('p, 'r, 'e) state \<Rightarrow> nat" where
  "getActiveCount st = length (activeRequests st)"

section \<open>The event loop\<close>

text \<open>
  One step of the event loop: a caller enqueues a payload; the oldest scheduled microtask
  calls \<^verbatim>\<open>sendFunction\<close>; the \<open>k\<close>-th awaited transport call resolves with a value or
  rejects with a reason; the armed timer with handle \<open>h\<close> fires. The steps that can emit
  carry the listeners subscribed at that moment. A step that names a transport call or a
  timer that does not exist does nothing.
\<close>

datatype ('p, 'r, 'e) event =
  AddRequest 'p
| RunSend
| Resolve nat "('r, 'e) response" "'p reaction list"
| Reject nat 'e "'p reaction list"
| TimerFire nat "'p reaction list"

fun step :: "('p, 'r, 'e) event \<Rightarrow> ('p, 'r, 'e) state \<Rightarrow> ('p, 'r, 'e) state" where
  "step (AddRequest p) st = call_addRequest p st"
| "step RunSend st =
     (case sendJobs st of
        [] \<Rightarrow> st
      | currentReq # js \<Rightarrow>
          st\<lparr>sendJobs := js, inflight := inflight st @ [currentReq],
             trace := trace st @ [Send currentReq]\<rparr>)"
| "step (Resolve k currentResp obs) st =
     (if k < length (inflight st)
      then onResolved (inflight st ! k) currentResp obs
             (st\<lparr>inflight := take k (inflight st) @ drop (Suc k) (inflight st)\<rparr>)
      else st)"
| "step (Reject k err obs) st =
     (if k < length (inflight st)
      then onRejected (inflight st ! k) err obs
             (st\<lparr>inflight := take k (inflight st) @ drop (Suc k) (inflight st)\<rparr>)
      else st)"
| "step (TimerFire h obs) st =
     (case find (\<lambda>t. fst t = h) (timers st) of
        None \<Rightarrow> st
      | Some t \<Rightarrow>
          let st1 = st\<lparr>timers := filter (\<lambda>t. fst t \<noteq> h) (timers st)\<rparr> in
          (case snd (snd t) of
             TimeoutCb i \<Rightarrow> handleTimeout i obs st1
           | DelayCb \<Rightarrow> delayExpired st1))"

definition run :: "('p, 'r, 'e) state \<Rightarrow> ('p, 'r, 'e) event list \<Rightarrow> ('p, 'r, 'e) state" where
  "run st evs = fold step evs st"

section \<open>The second copy of the class (src/unnamed/part_000)\<close>

text \<open>
  The file holds the demo driver followed by an older copy of \<^verbatim>\<open>RequestQueue\<close>: it has no
  \<^verbatim>\<open>sendingDelay\<close>, no \<^verbatim>\<open>isDelaying\<close> and no \<^verbatim>\<open>_scheduleNextProcess\<close>; its three handlers call
  \<^verbatim>\<open>_tryProcessNext\<close> directly. It is embedded separately, on its own record, with the
  same runtime primitives.
\<close>

record ('p, 'r, 'e) state_dup =
  maxId_dup :: int
  timeoutDuration_dup :: int
  queue_dup :: "'p envelope list"
  activeRequests_dup :: "(int \<times> nat \<times> 'p) list"
  isProcessing_dup :: bool
  requestCounter_dup :: int
  timers_dup :: "timer list"
  nextHandle_dup :: nat
  sendJobs_dup :: "'p envelope list"
  inflight_dup :: "'p envelope list"
  trace_dup :: "('p, 'r, 'e) action list"

definition init_dup :: "int \<Rightarrow> int \<Rightarrow> ('p, 'r, 'e) state_dup" where
  "init_dup N td =
     \<lparr> maxId_dup = N, timeoutDuration_dup = td, queue_dup = [], activeRequests_dup = [],
       isProcessing_dup = False, requestCounter_dup = 0,
       timers_dup = [], nextHandle_dup = 0, sendJobs_dup = [], inflight_dup = [], trace_dup = [] \<rparr>"

definition setTimeout_dup ::
  "cb \<Rightarrow> int \<Rightarrow> ('p, 'r, 'e) state_dup \<Rightarrow> nat \<times> ('p, 'r, 'e) state_dup"
where
  "setTimeout_dup c d st =
     (nextHandle_dup st,
      st\<lparr>timers_dup := timers_dup st @ [(nextHandle_dup st, d, c)],
         nextHandle_dup := Suc (nextHandle_dup st)\<rparr>)"

definition clearTimeout_dup :: "nat \<Rightarrow> ('p, 'r, 'e) state_dup \<Rightarrow> ('p, 'r, 'e) state_dup" where
  "clearTimeout_dup h st = st\<lparr>timers_dup := filter (\<lambda>t. fst t \<noteq> h) (timers_dup st)\<rparr>"

definition console_log_dup :: "string \<Rightarrow> ('p, 'r, 'e) state_dup \<Rightarrow> ('p, 'r, 'e) state_dup" where
  "console_log_dup s st = st\<lparr>trace_dup := trace_dup st @ [Log s]\<rparr>"

definition generateId_dup :: "('p, 'r, 'e) state_dup \<Rightarrow> int \<times> ('p, 'r, 'e) state_dup" where
  "generateId_dup st =
     (let st' = (if requestCounter_dup st < maxId_dup st
                 then st\<lparr>requestCounter_dup := requestCounter_dup st + 1\<rparr>
                 else st\<lparr>requestCounter_dup := 0\<rparr>)
      in (requestCounter_dup st', st'))"

definition tryProcessNext_dup :: "('p, 'r, 'e) state_dup \<Rightarrow> ('p, 'r, 'e) state_dup" where
  "tryProcessNext_dup st =
     (if isProcessing_dup st then st
      else if length (queue_dup st) = 0 then st
      else
        let st1 = st\<lparr>isProcessing_dup := True\<rparr> in
        (case queue_dup st1 of
           [] \<Rightarrow> st1\<lparr>isProcessing_dup := False\<rparr>
         | currentReq # rest \<Rightarrow>
             let st2 = st1\<lparr>queue_dup := rest\<rparr>;
                 (timer, st3) =
                    setTimeout_dup (TimeoutCb (fst currentReq)) (timeoutDuration_dup st2) st2;
                 st4 = st3\<lparr>activeRequests_dup :=
                         AList.update (fst currentReq) (timer, snd currentReq)
                           (activeRequests_dup st3)\<rparr>
             in st4\<lparr>sendJobs_dup := sendJobs_dup st4 @ [currentReq]\<rparr>))"

definition addRequest_dup ::
  "'p \<Rightarrow> ('p, 'r, 'e) state_dup \<Rightarrow> int \<times> ('p, 'r, 'e) state_dup"
where
  "addRequest_dup oRequest st =
     (let (requestId, st1) = generateId_dup st;
          requestItem = (requestId, oRequest);
          st2 = st1\<lparr>queue_dup := queue_dup st1 @ [requestItem]\<rparr>
      in (requestId, tryProcessNext_dup st2))"

definition call_addRequest_dup :: "'p \<Rightarrow> ('p, 'r, 'e) state_dup \<Rightarrow> ('p, 'r, 'e) state_dup" where
  "call_addRequest_dup p st =
     (let (requestId, st') = addRequest_dup p st
      in st'\<lparr>trace_dup := trace_dup st' @ [Returned requestId p]\<rparr>)"

fun run_listeners_dup ::
  "'p reaction list \<Rightarrow> ('p, 'r, 'e) state_dup \<Rightarrow> ('p, 'r, 'e) state_dup \<times> bool"
where
  "run_listeners_dup [] st = (st, False)"
| "run_listeners_dup (r # rs) st =
     (let st' = fold call_addRequest_dup (calls r) st
      in if throws r then (st', True) else run_listeners_dup rs st')"

definition emit_dup ::
  "('p, 'r, 'e) notification \<Rightarrow> 'p reaction list \<Rightarrow> ('p, 'r, 'e) state_dup
     \<Rightarrow> ('p, 'r, 'e) state_dup \<times> bool"
where
  "emit_dup n obs st =
     (let st1 = st\<lparr>trace_dup := trace_dup st @ [Emit n]\<rparr>
      in if obs = [] then (st1, is_error n) else run_listeners_dup obs st1)"

definition handleResponse_dup ::
  "('r, 'e) response \<Rightarrow> 'p reaction list \<Rightarrow> ('p, 'r, 'e) state_dup
     \<Rightarrow> 'e failure + ('p, 'r, 'e) state_dup"
where
  "handleResponse_dup currentResp obs st =
     (case currentResp of
        Nullish \<Rightarrow> Inl TypeError
      | Value isobj rid ownid resp \<Rightarrow>
          (case (case rid of None \<Rightarrow> None | Some i \<Rightarrow> map_of (activeRequests_dup st) i) of
             None \<Rightarrow> Inr st
           | Some active \<Rightarrow>
               (case shape_test currentResp of
                  Inl thrown \<Rightarrow> Inl thrown
                | Inr ok \<Rightarrow>
                    if ok then
                      let st1 = clearTimeout_dup (fst active) st;
                          st2 = st1\<lparr>activeRequests_dup :=
                                  AList.delete (the rid) (activeRequests_dup st1)\<rparr>;
                          (st3, thrown) = emit_dup (Success currentResp) obs st2;
                          st4 = (if thrown then console_log_dup ''emit success'' st3 else st3);
                          st5 = st4\<lparr>isProcessing_dup := False\<rparr>
                      in Inr (tryProcessNext_dup st5)
                    else Inl InvalidStructure)))"

definition handleTimeout_dup ::
  "int \<Rightarrow> 'p reaction list \<Rightarrow> ('p, 'r, 'e) state_dup \<Rightarrow> ('p, 'r, 'e) state_dup"
where
  "handleTimeout_dup i obs st =
     (case map_of (activeRequests_dup st) i of
        None \<Rightarrow> st
      | Some active \<Rightarrow>
          let st1 = st\<lparr>activeRequests_dup := AList.delete i (activeRequests_dup st)\<rparr>;
              (st2, thrown) = emit_dup (Timeout i (snd active)) obs st1;
              st3 = (if thrown then console_log_dup ''emit timeout'' st2 else st2);
              st4 = st3\<lparr>isProcessing_dup := False\<rparr>
          in tryProcessNext_dup st4)"

definition handleError_dup ::
  "int \<Rightarrow> 'e failure \<Rightarrow> 'p reaction list \<Rightarrow> ('p, 'r, 'e) state_dup \<Rightarrow> ('p, 'r, 'e) state_dup"
where
  "handleError_dup i err obs st =
     (case map_of (activeRequests_dup st) i of
        None \<Rightarrow> st
      | Some active \<Rightarrow>
          let st1 = clearTimeout_dup (fst active) st;
              st2 = st1\<lparr>activeRequests_dup := AList.delete i (activeRequests_dup st1)\<rparr>;
              (st3, thrown) = emit_dup (Error i (snd active) err) obs st2;
              st4 = (if thrown then console_log_dup ''emit error'' st3 else st3);
              st5 = st4\<lparr>isProcessing_dup := False\<rparr>
          in tryProcessNext_dup st5)"

definition onResolved_dup ::
  "'p envelope \<Rightarrow> ('r, 'e) response \<Rightarrow> 'p reaction list \<Rightarrow> ('p, 'r, 'e) state_dup
     \<Rightarrow> ('p, 'r, 'e) state_dup"
where
  "onResolved_dup currentReq currentResp obs st =
     (case handleResponse_dup currentResp obs st of
        Inr st' \<Rightarrow> st'
      | Inl err \<Rightarrow> handleError_dup (fst currentReq) err obs st)"

definition onRejected_dup ::
  "'p envelope \<Rightarrow> 'e \<Rightarrow> 'p reaction list \<Rightarrow> ('p, 'r, 'e) state_dup \<Rightarrow> ('p, 'r, 'e) state_dup"
where
  "onRejected_dup currentReq err obs st = handleError_dup (fst currentReq) (Reason err) obs st"

definition getQueueSize_dup :: "('p, 'r, 'e) state_dup \<Rightarrow> nat" where
  "getQueueSize_dup st = length (queue_dup st)"

definition getActiveCount_dup :: "('p, 'r, 'e) state_dup \<Rightarrow> nat" where
  "getActiveCount_dup st = length (activeRequests_dup st)"

text \<open>
  The same event loop around the copy. The copy arms timeout timers only; a timer with
  the delay callback has no counterpart in it and its firing does nothing.
\<close>

fun step_dup :: "('p, 'r, 'e) event \<Rightarrow> ('p, 'r, 'e) state_dup \<Rightarrow> ('p, 'r, 'e) state_dup" where
  "step_dup (AddRequest p) st = call_addRequest_dup p st"
| "step_dup RunSend st =
     (case sendJobs_dup st of
        [] \<Rightarrow> st
      | currentReq # js \<Rightarrow>
          st\<lparr>sendJobs_dup := js, inflight_dup := inflight_dup st @ [currentReq],
             trace_dup := trace_dup st @ [Send currentReq]\<rparr>)"
| "step_dup (Resolve k currentResp obs) st =
     (if k < length (inflight_dup st)
      then onResolved_dup (inflight_dup st ! k) currentResp obs
             (st\<lparr>inflight_dup := take k (inflight_dup st) @ drop (Suc k) (inflight_dup st)\<rparr>)
      else st)"
| "step_dup (Reject k err obs) st =
     (if k < length (inflight_dup st)
      then onRejected_dup (inflight_dup st ! k) err obs
             (st\<lparr>inflight_dup := take k (inflight_dup st) @ drop (Suc k) (inflight_dup st)\<rparr>)
      else st)"
| "step_dup (TimerFire h obs) st =
     (case find (\<lambda>t. fst t = h) (timers_dup st) of
        None \<Rightarrow> st
      | Some t \<Rightarrow>
          let st1 = st\<lparr>timers_dup := filter (\<lambda>t. fst t \<noteq> h) (timers_dup st)\<rparr> in
          (case snd (snd t) of
             TimeoutCb i \<Rightarrow> handleTimeout_dup i obs st1
           | DelayCb \<Rightarrow> st1))"

definition run_dup ::
  "('p, 'r, 'e) state_dup \<Rightarrow> ('p, 'r, 'e) event list \<Rightarrow> ('p, 'r, 'e) state_dup"
where
  "run_dup st evs = fold step_dup evs st"

text \<open>What the copy can see of a state of the class of src/request-queue.js.\<close>

definition proj :: "('p, 'r, 'e) state \<Rightarrow> ('p, 'r, 'e) state_dup" where
  "proj st =
     \<lparr> maxId_dup = maxId st, timeoutDuration_dup = timeoutDuration st, queue_dup = queue st,
       activeRequests_dup = activeRequests st, isProcessing_dup = isProcessing st,
       requestCounter_dup = requestCounter st, timers_dup = timers st,
       nextHandle_dup = nextHandle st, sendJobs_dup = sendJobs st, inflight_dup = inflight st,
       trace_dup = trace st \<rparr>"

text \<open>
  No inter-send pause is configured (\<^verbatim>\<open>sendingDelay\<close> absent, or not positive), none is
  running, and no delay timer is armed.
\<close>

definition plain :: "('p, 'r, 'e) state \<Rightarrow> bool" where
  "plain st \<longleftrightarrow>
     \<not> isDelaying st \<and>
     (case sendingDelay st of None \<Rightarrow> True | Some d \<Rightarrow> d \<le> 0) \<and>
     list_all (\<lambda>t. snd (snd t) \<noteq> DelayCb) (timers st)"

section \<open>Calls in any order\<close>

text \<open>
  The methods of the class invoked one after the other in an arbitrary order, whether or
  not a timer or a transport call stands behind the invocation: an enqueue, an admission
  attempt, the three resolutions (an exception of \<^verbatim>\<open>_handleResponse\<close> leaves the state as it
  was), the expiry of the delay, or a step of the event loop.
\<close>

datatype ('p, 'r, 'e) call =
  Enqueue 'p
| Admit
| Respond "('r, 'e) response" "'p reaction list"
| TimeOut int "'p reaction list"
| Fail int "'e failure" "'p reaction list"
| DelayExpiry
| Loop "('p, 'r, 'e) event"

fun invoke :: "('p, 'r, 'e) call \<Rightarrow> ('p, 'r, 'e) state \<Rightarrow> ('p, 'r, 'e) state" where
  "invoke (Enqueue p) st = call_addRequest p st"
| "invoke Admit st = tryProcessNext st"
| "invoke (Respond currentResp obs) st =
     (case handleResponse currentResp obs st of Inr st' \<Rightarrow> st' | Inl err \<Rightarrow> st)"
| "invoke (TimeOut i obs) st = handleTimeout i obs st"
| "invoke (Fail i err obs) st = handleError i err obs st"
| "invoke DelayExpiry st = delayExpired st"
| "invoke (Loop ev) st = step ev st"

section \<open>Histories and invariants\<close>

text \<open>
  Projections of the history: the envelopes \<^verbatim>\<open>sendFunction\<close> was invoked on, the envelopes
  made of the ids \<^verbatim>\<open>addRequest\<close> returned and the payloads it was called with, and the
  notifications emitted, each in the order of occurrence.
\<close>

fun sends :: "('p, 'r, 'e) action list \<Rightarrow> 'p envelope list" where
  "sends [] = []"
| "sends (Send e # t) = e # sends t"
| "sends (_ # t) = sends t"

fun returns :: "('p, 'r, 'e) action list \<Rightarrow> 'p envelope list" where
  "returns [] = []"
| "returns (Returned i p # t) = (i, p) # returns t"
| "returns (_ # t) = returns t"

fun emits :: "('p, 'r, 'e) action list \<Rightarrow> ('p, 'r, 'e) notification list" where
  "emits [] = []"
| "emits (Emit n # t) = n # emits t"
| "emits (_ # t) = emits t"

text \<open>The id a notification carries (for \<open>Success\<close>, what \<^verbatim>\<open>.id\<close> of the response reads).\<close>

fun nid :: "('p, 'r, 'e) notification \<Rightarrow> int option" where
  "nid (Success Nullish) = None"
| "nid (Success (Value _ rid _ _)) = rid"
| "nid (Timeout i _) = Some i"
| "nid (Error i _ _) = Some i"

text \<open>
  A history is serialized when every invocation of \<^verbatim>\<open>sendFunction\<close> occurs after at least
  as many resolutions (emitted notifications) as there were invocations before it:
  \<open>serial_from s r t\<close> scans \<open>t\<close> having seen \<open>s\<close> invocations and \<open>r\<close> resolutions.
\<close>

fun serial_from :: "nat \<Rightarrow> nat \<Rightarrow> ('p, 'r, 'e) action list \<Rightarrow> bool" where
  "serial_from s r [] = True"
| "serial_from s r (Send e # t) = (s \<le> r \<and> serial_from (Suc s) r t)"
| "serial_from s r (Emit n # t) = serial_from s (Suc r) t"
| "serial_from s r (_ # t) = serial_from s r t"

definition serialized :: "('p, 'r, 'e) action list \<Rightarrow> bool" where
  "serialized t = serial_from 0 0 t"

text \<open>The invariants, by the part of the state they speak about.\<close>

definition gates :: "('p, 'r, 'e) state \<Rightarrow> bool" where
  "gates st \<longleftrightarrow>
     length (activeRequests st) \<le> 1 \<and>
     (activeRequests st \<noteq> [] \<longrightarrow> isProcessing st) \<and>
     \<not> (isProcessing st \<and> isDelaying st)"

definition fresh_handles :: "('p, 'r, 'e) state \<Rightarrow> bool" where
  "fresh_handles st \<longleftrightarrow> (\<forall>t \<in> set (timers st). fst t < nextHandle st)"

definition fifo_hist :: "('p, 'r, 'e) state \<Rightarrow> bool" where
  "fifo_hist st \<longleftrightarrow>
     returns (trace st) = sends (trace st) @ sendJobs st @ queue st \<and>
     map nid (emits (trace st)) @ map (\<lambda>a. Some (fst a)) (activeRequests st)
       = map (\<lambda>e. Some (fst e)) (sends (trace st)) @ map (\<lambda>e. Some (fst e)) (sendJobs st) \<and>
     serialized (trace st)"

definition id_hist :: "('p, 'r, 'e) state \<Rightarrow> bool" where
  "id_hist st \<longleftrightarrow>
     (0 \<le> maxId st \<longrightarrow>
        requestCounter st = int (length (returns (trace st))) mod (maxId st + 1) \<and>
        map fst (returns (trace st))
          = map (\<lambda>k. int k mod (maxId st + 1)) [1 ..< Suc (length (returns (trace st)))])"

definition coherent :: "('p, 'r, 'e) state \<Rightarrow> bool" where
  "coherent st \<longleftrightarrow> gates st \<and> fresh_handles st \<and> fifo_hist st \<and> id_hist st"

text \<open>
  \<open>settled\<close> holds between two steps of the event loop; \<open>resolving\<close> holds inside a handler,
  between the removal of the active entry (with its notification emitted) and the reset
  of \<^verbatim>\<open>isProcessing\<close>.
\<close>

definition settled :: "('p, 'r, 'e) state \<Rightarrow> bool" where
  "settled st \<longleftrightarrow> coherent st \<and> (isProcessing st \<longrightarrow> activeRequests st \<noteq> [])"

definition resolving :: "('p, 'r, 'e) state \<Rightarrow> bool" where
  "resolving st \<longleftrightarrow> coherent st \<and> isProcessing st \<and> activeRequests st = []"

text \<open>The part of \<^verbatim>\<open>addRequest\<close> before the admission attempt, with the caller's record.\<close>

definition push :: "'p \<Rightarrow> ('p, 'r, 'e) state \<Rightarrow> ('p, 'r, 'e) state" where
  "push p st =
     st\<lparr>requestCounter := fst (generateId st),
        queue := queue st @ [(fst (generateId st), p)],
        trace := trace st @ [Returned (fst (generateId st)) p]\<rparr>"

definition config :: "('p, 'r, 'e) state \<Rightarrow> int \<times> int \<times> int option" where
  "config st = (maxId st, timeoutDuration st, sendingDelay st)"

text \<open>
  The common tail of the three handlers, applied to the result of \<^verbatim>\<open>emit\<close>: the
  \<^verbatim>\<open>catch\<close> block, the reset of \<^verbatim>\<open>isProcessing\<close> and \<^verbatim>\<open>_scheduleNextProcess\<close>.
\<close>

definition finish :: "('p, 'r, 'e) state \<times> bool \<Rightarrow> string \<Rightarrow> ('p, 'r, 'e) state" where
  "finish r tag =
     scheduleNextProcess ((if snd r then console_log tag (fst r) else fst r)\<lparr>isProcessing := False\<rparr>)"

text \<open>
  Every armed timer with a timeout callback is the timer of an active entry with the
  callback's id.
\<close>

definition timers_match :: "('p, 'r, 'e) state \<Rightarrow> bool" where
  "timers_match st \<longleftrightarrow>
     (\<forall>t \<in> set (timers st). \<forall>j. snd (snd t) = TimeoutCb j \<longrightarrow>
        (\<exists>p. (j, fst t, p) \<in> set (activeRequests st)))"

text \<open>
  A step of the event loop that is neither the firing of the timer \<open>h\<close>, nor an outcome of
  a transport call that was made for the id \<open>i\<close>, nor an outcome that carries the id \<open>i\<close>.
\<close>

fun response_id :: "('r, 'e) response \<Rightarrow> int option" where
  "response_id Nullish = None"
| "response_id (Value _ rid _ _) = rid"

fun quiet :: "int \<Rightarrow> nat \<Rightarrow> ('p, 'r, 'e) state \<Rightarrow> ('p, 'r, 'e) event \<Rightarrow> bool" where
  "quiet i h st (AddRequest p) = True"
| "quiet i h st RunSend = True"
| "quiet i h st (Resolve k r obs) =
     (k < length (inflight st) \<longrightarrow> fst (inflight st ! k) \<noteq> i \<and> response_id r \<noteq> Some i)"
| "quiet i h st (Reject k e obs) = (k < length (inflight st) \<longrightarrow> fst (inflight st ! k) \<noteq> i)"
| "quiet i h st (TimerFire h' obs) = (h' \<noteq> h)"

text \<open>The timer of every active entry is armed, with the delay \<^verbatim>\<open>timeoutDuration\<close>.\<close>

definition armed :: "('p, 'r, 'e) state \<Rightarrow> bool" where
  "armed st \<longleftrightarrow>
     (\<forall>a \<in> set (activeRequests st).
        find (\<lambda>t. fst t = fst (snd a)) (timers st)
          = Some (fst (snd a), timeoutDuration st, TimeoutCb (fst a)))"

section \<open>Invariants of the event loop\<close>

lemma sends_append [simp]: "sends (t @ u) = sends t @ sends u"
  by (induction t rule: sends.induct) auto

lemma returns_append [simp]: "returns (t @ u) = returns t @ returns u"
  by (induction t rule: returns.induct) auto

lemma emits_append [simp]: "emits (t @ u) = emits t @ emits u"
  by (induction t rule: emits.induct) auto

lemma serial_from_append:
  "serial_from s r (t @ u) \<longleftrightarrow>
     serial_from s r t \<and> serial_from (s + length (sends t)) (r + length (emits t)) u"
  by (induction s r t rule: serial_from.induct) auto

lemma serialized_snoc:
  "serialized (t @ [a]) \<longleftrightarrow>
     serialized t \<and> (case a of Send e \<Rightarrow> length (sends t) \<le> length (emits t) | _ \<Rightarrow> True)"
  by (cases a) (auto simp: serialized_def serial_from_append)

lemma init_settled: "settled (init N td sd)"
  by (simp add: settled_def coherent_def gates_def fresh_handles_def fifo_hist_def id_hist_def init_def serialized_def)

lemma tryProcessNext_gated: "isProcessing st \<or> isDelaying st \<or> queue st = [] \<Longrightarrow> tryProcessNext st = st"
  by (auto simp add: tryProcessNext_def)

lemma tryProcessNext_open:
  assumes "\<not> isProcessing st" "\<not> isDelaying st" "queue st = (i, p) # rest"
  shows "tryProcessNext st =
     st\<lparr>isProcessing := True, queue := rest,
        timers := timers st @ [(nextHandle st, timeoutDuration st, TimeoutCb i)],
        nextHandle := Suc (nextHandle st),
        activeRequests := AList.update i (nextHandle st, p) (activeRequests st),
        sendJobs := sendJobs st @ [(i, p)]\<rparr>"
  using assms by (simp add: tryProcessNext_def setTimeout_def)

lemma tryProcessNext_trace [simp]: "trace (tryProcessNext st) = trace st"
  by (simp add: tryProcessNext_def setTimeout_def Let_def split: list.splits)

lemma tryProcessNext_cases:
  obtains (gated) "tryProcessNext st = st"
  | (admit) i p rest where "\<not> isProcessing st" "\<not> isDelaying st" "queue st = (i, p) # rest"
      "tryProcessNext st =
         st\<lparr>isProcessing := True, queue := rest,
            timers := timers st @ [(nextHandle st, timeoutDuration st, TimeoutCb i)],
            nextHandle := Suc (nextHandle st),
            activeRequests := AList.update i (nextHandle st, p) (activeRequests st),
            sendJobs := sendJobs st @ [(i, p)]\<rparr>"
proof (cases "isProcessing st \<or> isDelaying st \<or> queue st = []")
  case True
  then show ?thesis by (rule gated[OF tryProcessNext_gated])
next
  case False
  then obtain i p rest where q: "queue st = (i, p) # rest"
    by (cases "queue st") auto
  from False have np: "\<not> isProcessing st" and nd: "\<not> isDelaying st" by simp_all
  show ?thesis by (rule admit[OF np nd q tryProcessNext_open[OF np nd q]])
qed

lemma tryProcessNext_coherent:
  assumes "coherent st"
  shows "coherent (tryProcessNext st)"
proof (cases st rule: tryProcessNext_cases)
  case gated
  then show ?thesis using assms by simp
next
  case (admit i p rest)
  have a: "activeRequests st = []"
    using assms admit(1) by (auto simp: coherent_def gates_def)
  have "gates (tryProcessNext st)"
    using assms a admit by (simp add: coherent_def gates_def)
  moreover have "fresh_handles (tryProcessNext st)"
    using assms admit(4) by (auto simp: coherent_def fresh_handles_def less_Suc_eq)
  moreover have "fifo_hist (tryProcessNext st)"
    using assms a admit by (simp add: coherent_def fifo_hist_def)
  moreover have "id_hist (tryProcessNext st)"
    using assms admit(4) by (simp add: coherent_def id_hist_def)
  ultimately show ?thesis by (simp add: coherent_def)
qed

lemma tryProcessNext_busy:
  "isProcessing st \<longrightarrow> activeRequests st \<noteq> [] \<Longrightarrow>
   isProcessing (tryProcessNext st) \<longrightarrow> activeRequests (tryProcessNext st) \<noteq> []"
  by (cases st rule: tryProcessNext_cases) (auto split: if_splits)

lemma tryProcessNext_settled: "settled st \<Longrightarrow> settled (tryProcessNext st)"
  unfolding settled_def using tryProcessNext_coherent[of st] tryProcessNext_busy[of st] by blast

lemma tryProcessNext_trace_update:
  "tryProcessNext (st\<lparr>trace := t\<rparr>) = (tryProcessNext st)\<lparr>trace := t\<rparr>"
  by (cases "queue st") (simp_all add: tryProcessNext_def setTimeout_def Let_def)

lemma call_addRequest_push: "call_addRequest p st = tryProcessNext (push p st)"
  by (simp add: call_addRequest_def addRequest_def generateId_def push_def Let_def
        tryProcessNext_trace_update)

lemma next_id_mod:
  fixes n N :: int
  assumes "0 \<le> N"
  shows "(if n mod (N + 1) < N then n mod (N + 1) + 1 else 0) = (n + 1) mod (N + 1)"
proof -
  let ?m = "n mod (N + 1)"
  have range: "0 \<le> ?m" "?m < N + 1"
    using assms pos_mod_sign[of "N + 1" n] pos_mod_bound[of "N + 1" n] by linarith+
  have step: "(n + 1) mod (N + 1) = (?m + 1) mod (N + 1)"
    by (simp add: mod_add_left_eq)
  show ?thesis
  proof (cases "?m < N")
    case True
    then have "(?m + 1) mod (N + 1) = ?m + 1" using range by simp
    with True step show ?thesis by simp
  next
    case False
    then have "?m = N" using range by linarith
    then have "(?m + 1) mod (N + 1) = 0" by simp
    with False step show ?thesis by simp
  qed
qed

lemma coherentD: "coherent st \<Longrightarrow> gates st" "coherent st \<Longrightarrow> fresh_handles st" "coherent st \<Longrightarrow> fifo_hist st" "coherent st \<Longrightarrow> id_hist st"
  by (simp_all add: coherent_def)

lemma gates_cong:
  "activeRequests s' = activeRequests s \<Longrightarrow> isProcessing s' = isProcessing s \<Longrightarrow>
   isDelaying s' = isDelaying s \<Longrightarrow> gates s' = gates s"
  by (simp add: gates_def)

lemma fresh_handles_cong:
  "timers s' = timers s \<Longrightarrow> nextHandle s' = nextHandle s \<Longrightarrow> fresh_handles s' = fresh_handles s"
  by (simp add: fresh_handles_def)

lemma id_hist_cong:
  "maxId s' = maxId s \<Longrightarrow> requestCounter s' = requestCounter s \<Longrightarrow>
   returns (trace s') = returns (trace s) \<Longrightarrow> id_hist s' = id_hist s"
  by (simp add: id_hist_def)

lemma id_hist_push:
  assumes "id_hist st"
  shows "id_hist (push p st)"
proof (cases "0 \<le> maxId st")
  case False
  then show ?thesis by (simp add: id_hist_def push_def)
next
  case True
  let ?n = "length (returns (trace st))"
  let ?N = "maxId st"
  from assms True have c: "requestCounter st = int ?n mod (?N + 1)"
    and m: "map fst (returns (trace st)) = map (\<lambda>k. int k mod (?N + 1)) [1 ..< Suc ?n]"
    by (simp_all add: id_hist_def)
  have "fst (generateId st) = (if requestCounter st < ?N then requestCounter st + 1 else 0)"
    by (simp add: generateId_def)
  also have "\<dots> = (int ?n + 1) mod (?N + 1)"
    unfolding c by (rule next_id_mod[OF True])
  also have "int ?n + 1 = int (Suc ?n)" by simp
  finally have g: "fst (generateId st) = int (Suc ?n) mod (?N + 1)" .
  have r: "returns (trace (push p st)) = returns (trace st) @ [(fst (generateId st), p)]"
    by (simp add: push_def)
  have "requestCounter (push p st) = int (length (returns (trace (push p st)))) mod (?N + 1)"
    unfolding r using g by (simp add: push_def)
  moreover have "map fst (returns (trace (push p st)))
      = map (\<lambda>k. int k mod (?N + 1)) [1 ..< Suc (length (returns (trace (push p st))))]"
    unfolding r using g m by simp
  moreover have "maxId (push p st) = ?N" by (simp add: push_def)
  ultimately show ?thesis by (simp only: id_hist_def simp_thms)
qed

lemma fifo_hist_push: "fifo_hist st \<Longrightarrow> fifo_hist (push p st)"
  by (simp add: fifo_hist_def push_def serialized_snoc)

lemma push_coherent:
  assumes "coherent st"
  shows "coherent (push p st)"
proof -
  have "gates (push p st) = gates st" by (rule gates_cong) (simp_all add: push_def)
  moreover have "fresh_handles (push p st) = fresh_handles st" by (rule fresh_handles_cong) (simp_all add: push_def)
  ultimately show ?thesis
    using assms fifo_hist_push[of st p] id_hist_push[of st p] by (simp add: coherent_def)
qed

lemma push_fields [simp]:
  "isProcessing (push p st) = isProcessing st"
  "isDelaying (push p st) = isDelaying st"
  "activeRequests (push p st) = activeRequests st"
  by (simp_all add: push_def)

lemma call_addRequest_settled: "settled st \<Longrightarrow> settled (call_addRequest p st)"
  unfolding call_addRequest_push
  by (rule tryProcessNext_settled) (simp add: settled_def push_coherent)

lemma call_addRequest_resolving: "resolving st \<Longrightarrow> resolving (call_addRequest p st)"
  unfolding call_addRequest_push resolving_def
  by (simp add: tryProcessNext_gated push_coherent)

lemma fold_call_resolving: "resolving st \<Longrightarrow> resolving (fold call_addRequest ps st)"
  by (induction ps arbitrary: st) (simp_all add: call_addRequest_resolving)

lemma run_listeners_resolving: "resolving st \<Longrightarrow> resolving (fst (run_listeners obs st))"
  by (induction obs arbitrary: st) (simp_all add: Let_def fold_call_resolving)

lemma console_log_coherent: "coherent (console_log s st) = coherent st"
proof -
  have "gates (console_log s st) = gates st" by (rule gates_cong) (simp_all add: console_log_def)
  moreover have "fresh_handles (console_log s st) = fresh_handles st" by (rule fresh_handles_cong) (simp_all add: console_log_def)
  moreover have "id_hist (console_log s st) = id_hist st" by (rule id_hist_cong) (simp_all add: console_log_def)
  moreover have "fifo_hist (console_log s st) = fifo_hist st" by (simp add: fifo_hist_def console_log_def serialized_snoc)
  ultimately show ?thesis by (simp add: coherent_def)
qed

lemma console_log_resolving: "resolving st \<Longrightarrow> resolving (console_log s st)"
  by (simp add: resolving_def console_log_coherent) (simp add: console_log_def)

lemma emit_resolving:
  assumes "coherent st" "isProcessing st" "activeRequests st = [(i, a)]" "nid n = Some i"
    and "set ts \<subseteq> set (timers st)"
  shows "resolving (fst (emit n obs (st\<lparr>timers := ts, activeRequests := []\<rparr>)))"
proof -
  let ?s = "st\<lparr>timers := ts, activeRequests := [], trace := trace st @ [Emit n]\<rparr>"
  have "gates ?s" using assms by (simp add: coherent_def gates_def)
  moreover have "fresh_handles ?s" using assms by (auto simp: coherent_def fresh_handles_def)
  moreover have "fifo_hist ?s" using assms by (simp add: coherent_def fifo_hist_def serialized_snoc)
  moreover have "id_hist ?s = id_hist st" by (rule id_hist_cong) simp_all
  ultimately have "resolving ?s" using assms by (simp add: resolving_def coherent_def)
  then show ?thesis
    by (simp add: emit_def Let_def run_listeners_resolving)
qed

lemma scheduleNextProcess_settled:
  assumes "resolving st"
  shows "settled (scheduleNextProcess (st\<lparr>isProcessing := False\<rparr>))"
proof -
  let ?s = "st\<lparr>isProcessing := False\<rparr>"
  from assms have w: "gates st" "fresh_handles st" "fifo_hist st" "id_hist st" "activeRequests st = []"
    by (simp_all add: resolving_def coherent_def)
  have s: "settled ?s"
  proof -
    have "gates ?s" using w by (simp add: gates_def)
    moreover have "fresh_handles ?s = fresh_handles st" by (rule fresh_handles_cong) simp_all
    moreover have "id_hist ?s = id_hist st" by (rule id_hist_cong) simp_all
    moreover have "fifo_hist ?s" using w by (simp add: fifo_hist_def)
    ultimately show ?thesis using w by (simp add: settled_def coherent_def)
  qed
  have d: "settled (snd (setTimeout DelayCb d (?s\<lparr>isDelaying := True\<rparr>)))" for d
  proof -
    let ?t = "snd (setTimeout DelayCb d (?s\<lparr>isDelaying := True\<rparr>))"
    have "gates ?t" using w by (simp add: gates_def setTimeout_def)
    moreover have "fresh_handles ?t" using w by (auto simp: fresh_handles_def setTimeout_def less_Suc_eq)
    moreover have "id_hist ?t = id_hist st" by (rule id_hist_cong) (simp_all add: setTimeout_def)
    moreover have "fifo_hist ?t" using w by (simp add: fifo_hist_def setTimeout_def)
    moreover have "\<not> isProcessing ?t" by (simp add: setTimeout_def)
    ultimately show ?thesis using w by (simp add: settled_def coherent_def)
  qed
  show ?thesis
    using s d tryProcessNext_settled[OF s]
    by (simp add: scheduleNextProcess_def split: option.splits)
qed

lemma active_single:
  assumes "gates st" "map_of (activeRequests st) i = Some a"
  shows "activeRequests st = [(i, a)]" "isProcessing st"
proof -
  from assms obtain k v where kv: "activeRequests st = [(k, v)]"
    by (cases "activeRequests st") (auto simp: gates_def)
  with assms(2) show "activeRequests st = [(i, a)]" by (simp split: if_splits)
  from kv assms(1) show "isProcessing st" by (simp add: gates_def)
qed

lemma handleTimeout_None: "map_of (activeRequests st) i = None \<Longrightarrow> handleTimeout i obs st = st"
  by (simp add: handleTimeout_def)

lemma handleTimeout_Some:
  "map_of (activeRequests st) i = Some a \<Longrightarrow>
   handleTimeout i obs st =
     finish (emit (Timeout i (snd a)) obs (st\<lparr>activeRequests := AList.delete i (activeRequests st)\<rparr>))
       ''emit timeout''"
  by (simp add: handleTimeout_def finish_def case_prod_unfold)

lemma handleError_None: "map_of (activeRequests st) i = None \<Longrightarrow> handleError i err obs st = st"
  by (simp add: handleError_def)

lemma handleError_Some:
  "map_of (activeRequests st) i = Some a \<Longrightarrow>
   handleError i err obs st =
     finish (emit (Error i (snd a) err) obs
        (st\<lparr>timers := filter (\<lambda>t. fst t \<noteq> fst a) (timers st),
            activeRequests := AList.delete i (activeRequests st)\<rparr>))
       ''emit error''"
  by (simp add: handleError_def finish_def case_prod_unfold clearTimeout_def)

lemma handleResponse_Nullish: "handleResponse Nullish obs st = Inl TypeError"
  by (simp add: handleResponse_def)

lemma handleResponse_None:
  "(case rid of None \<Rightarrow> None | Some i \<Rightarrow> map_of (activeRequests st) i) = None \<Longrightarrow>
   handleResponse (Value isobj rid ownid resp) obs st = Inr st"
  by (simp add: handleResponse_def)

lemma handleResponse_raises:
  "map_of (activeRequests st) i = Some a \<Longrightarrow>
   shape_test (Value isobj (Some i) ownid resp) = Inl x \<Longrightarrow>
   handleResponse (Value isobj (Some i) ownid resp) obs st = Inl x"
  by (simp add: handleResponse_def)

lemma handleResponse_malformed:
  "map_of (activeRequests st) i = Some a \<Longrightarrow>
   shape_test (Value isobj (Some i) ownid resp) = Inr False \<Longrightarrow>
   handleResponse (Value isobj (Some i) ownid resp) obs st = Inl InvalidStructure"
  by (simp add: handleResponse_def)

lemma shape_test_True:
  "shape_test r = Inr True \<longleftrightarrow> (\<exists>rid v. r = Value True rid (Inr True) (Inr (Some v)))"
  by (cases r) (auto split: sum.splits if_splits)

lemma handleResponse_Some:
  "map_of (activeRequests st) i = Some a \<Longrightarrow>
   handleResponse (Value True (Some i) (Inr True) (Inr (Some r))) obs st =
     Inr (finish (emit (Success (Value True (Some i) (Inr True) (Inr (Some r)))) obs
        (st\<lparr>timers := filter (\<lambda>t. fst t \<noteq> fst a) (timers st),
            activeRequests := AList.delete i (activeRequests st)\<rparr>))
       ''emit success'')"
  by (simp add: handleResponse_def finish_def case_prod_unfold clearTimeout_def)

lemma handleResponse_cases:
  obtains (raises) x where "handleResponse currentResp obs st = Inl x"
  | (stale) "handleResponse currentResp obs st = Inr st"
  | (success) i a r where
      "currentResp = Value True (Some i) (Inr True) (Inr (Some r))"
      "map_of (activeRequests st) i = Some a"
      "handleResponse currentResp obs st =
         Inr (finish (emit (Success currentResp) obs
            (st\<lparr>timers := filter (\<lambda>t. fst t \<noteq> fst a) (timers st),
                activeRequests := AList.delete i (activeRequests st)\<rparr>))
           ''emit success'')"
proof (cases currentResp)
  case Nullish
  show ?thesis by (rule raises) (simp only: Nullish handleResponse_Nullish)
next
  case (Value isobj rid ownid resp)
  show ?thesis
  proof (cases "case rid of None \<Rightarrow> None | Some i \<Rightarrow> map_of (activeRequests st) i")
    case None
    show ?thesis
      by (rule stale) (simp only: Value handleResponse_None[OF None])
  next
    case (Some a)
    then obtain i where rid: "rid = Some i" and act: "map_of (activeRequests st) i = Some a"
      by (cases rid) simp_all
    show ?thesis
    proof (cases "shape_test (Value isobj (Some i) ownid resp)")
      case (Inl x)
      show ?thesis
        by (rule raises) (simp only: Value rid handleResponse_raises[OF act Inl])
    next
      case (Inr ok)
      show ?thesis
      proof (cases ok)
        case False
        with Inr have "shape_test (Value isobj (Some i) ownid resp) = Inr False" by simp
        then show ?thesis
          by (intro raises) (simp only: Value rid handleResponse_malformed[OF act])
      next
        case True
        with Inr have t: "shape_test (Value isobj (Some i) ownid resp) = Inr True" by simp
        from t[unfolded shape_test_True]
        obtain r where r: "isobj = True" "ownid = Inr True" "resp = Inr (Some r)"
          by auto
        show ?thesis
          by (rule success[OF _ act]) (simp_all only: Value rid r handleResponse_Some[OF act])
      qed
    qed
  qed
qed

lemma finish_settled:
  assumes "settled st" "map_of (activeRequests st) i = Some a" "nid n = Some i"
    and "set ts \<subseteq> set (timers st)"
    and e: "emit n obs (st\<lparr>timers := ts, activeRequests := []\<rparr>) = (s, thr)"
  shows "settled (scheduleNextProcess ((if thr then console_log tag s else s)\<lparr>isProcessing := False\<rparr>))"
proof -
  from assms(1) have w: "coherent st" by (simp add: settled_def)
  note single = active_single[OF coherentD(1)[OF w] assms(2)]
  have "resolving s"
    using emit_resolving[OF w single(2) single(1) assms(3) assms(4), of obs] e by simp
  then have "resolving (if thr then console_log tag s else s)"
    by (simp add: console_log_resolving)
  then show ?thesis by (rule scheduleNextProcess_settled)
qed

lemma handleTimeout_settled:
  assumes "settled st"
  shows "settled (handleTimeout i obs st)"
proof (cases "map_of (activeRequests st) i")
  case None
  then show ?thesis using assms by (simp add: handleTimeout_def)
next
  case (Some a)
  from assms have w: "coherent st" by (simp add: settled_def)
  note single = active_single[OF coherentD(1)[OF w] Some]
  obtain s thr where e: "emit (Timeout i (snd a)) obs (st\<lparr>timers := timers st, activeRequests := []\<rparr>) = (s, thr)"
    by (cases "emit (Timeout i (snd a)) obs (st\<lparr>timers := timers st, activeRequests := []\<rparr>)")
  have "handleTimeout i obs st =
      scheduleNextProcess ((if thr then console_log ''emit timeout'' s else s)\<lparr>isProcessing := False\<rparr>)"
    using Some single(1) e by (simp add: handleTimeout_def)
  then show ?thesis
    using finish_settled[OF assms Some _ _ e] by simp
qed

lemma handleError_settled:
  assumes "settled st"
  shows "settled (handleError i err obs st)"
proof (cases "map_of (activeRequests st) i")
  case None
  then show ?thesis using assms by (simp add: handleError_def)
next
  case (Some a)
  from assms have w: "coherent st" by (simp add: settled_def)
  note single = active_single[OF coherentD(1)[OF w] Some]
  let ?ts = "filter (\<lambda>t. fst t \<noteq> fst a) (timers st)"
  obtain s thr where e: "emit (Error i (snd a) err) obs (st\<lparr>timers := ?ts, activeRequests := []\<rparr>) = (s, thr)"
    by (cases "emit (Error i (snd a) err) obs (st\<lparr>timers := ?ts, activeRequests := []\<rparr>)")
  have "clearTimeout (fst a) st\<lparr>activeRequests := []\<rparr> = st\<lparr>timers := ?ts, activeRequests := []\<rparr>"
    by (simp add: clearTimeout_def)
  then have "handleError i err obs st =
      scheduleNextProcess ((if thr then console_log ''emit error'' s else s)\<lparr>isProcessing := False\<rparr>)"
    using Some single(1) e by (simp add: handleError_def clearTimeout_def)
  then show ?thesis
    using finish_settled[OF assms Some _ _ e] by simp
qed

lemma handleResponse_settled:
  assumes "settled st" "handleResponse currentResp obs st = Inr st'"
  shows "settled st'"
proof (cases currentResp obs st rule: handleResponse_cases)
  case (raises x)
  with assms(2) show ?thesis by simp
next
  case stale
  with assms show ?thesis by simp
next
  case (success i a r)
  from assms have w: "coherent st" by (simp add: settled_def)
  note single = active_single[OF coherentD(1)[OF w] success(2)]
  let ?ts = "filter (\<lambda>t. fst t \<noteq> fst a) (timers st)"
  obtain s thr where e: "emit (Success currentResp) obs (st\<lparr>timers := ?ts, activeRequests := []\<rparr>) = (s, thr)"
    by (cases "emit (Success currentResp) obs (st\<lparr>timers := ?ts, activeRequests := []\<rparr>)")
  have "handleResponse currentResp obs st = Inr (finish (s, thr) ''emit success'')"
    using success(3) single(1) e by simp
  with assms(2) have "st' = finish (s, thr) ''emit success''" by simp
  then have eq: "st' = scheduleNextProcess ((if thr then console_log ''emit success'' s else s)\<lparr>isProcessing := False\<rparr>)"
    by (simp only: finish_def fst_conv snd_conv)
  have n: "nid (Success currentResp) = Some i" using success(1) by simp
  show ?thesis
    unfolding eq by (rule finish_settled[OF assms(1) success(2) n _ e]) simp
qed

lemma onResolved_settled: "settled st \<Longrightarrow> settled (onResolved currentReq currentResp obs st)"
  by (auto simp: onResolved_def handleError_settled handleResponse_settled split: sum.splits)

lemma onRejected_settled: "settled st \<Longrightarrow> settled (onRejected currentReq err obs st)"
  by (simp add: onRejected_def handleError_settled)

lemma settled_inflight: "settled (st\<lparr>inflight := x\<rparr>) = settled st"
proof -
  let ?s = "st\<lparr>inflight := x\<rparr>"
  have "gates ?s = gates st" by (rule gates_cong) simp_all
  moreover have "fresh_handles ?s = fresh_handles st" by (rule fresh_handles_cong) simp_all
  moreover have "id_hist ?s = id_hist st" by (rule id_hist_cong) simp_all
  moreover have "fifo_hist ?s = fifo_hist st" by (simp add: fifo_hist_def)
  ultimately show ?thesis by (simp add: settled_def coherent_def)
qed

lemma settled_timers_filter:
  assumes "settled st"
  shows "settled (st\<lparr>timers := filter P (timers st)\<rparr>)"
proof -
  let ?s = "st\<lparr>timers := filter P (timers st)\<rparr>"
  have "gates ?s = gates st" by (rule gates_cong) simp_all
  moreover have "fresh_handles ?s" using assms by (simp add: settled_def coherent_def fresh_handles_def)
  moreover have "id_hist ?s = id_hist st" by (rule id_hist_cong) simp_all
  moreover have "fifo_hist ?s = fifo_hist st" by (simp add: fifo_hist_def)
  ultimately show ?thesis using assms by (simp add: settled_def coherent_def)
qed

lemma delayExpired_settled:
  assumes "settled st"
  shows "settled (delayExpired st)"
proof -
  let ?s = "st\<lparr>isDelaying := False\<rparr>"
  have "gates ?s" using assms by (simp add: settled_def coherent_def gates_def)
  moreover have "fresh_handles ?s = fresh_handles st" by (rule fresh_handles_cong) simp_all
  moreover have "id_hist ?s = id_hist st" by (rule id_hist_cong) simp_all
  moreover have "fifo_hist ?s = fifo_hist st" by (simp add: fifo_hist_def)
  ultimately have "settled ?s" using assms by (simp add: settled_def coherent_def)
  then show ?thesis unfolding delayExpired_def by (rule tryProcessNext_settled)
qed

lemma fifo_hist_counts:
  assumes "fifo_hist st"
  shows "length (emits (trace st)) + length (activeRequests st)
           = length (sends (trace st)) + length (sendJobs st)"
proof -
  from assms have "length (map nid (emits (trace st)) @ map (\<lambda>a. Some (fst a)) (activeRequests st))
      = length (map (\<lambda>e. Some (fst e)) (sends (trace st)) @ map (\<lambda>e. Some (fst e)) (sendJobs st))"
    by (simp only: fifo_hist_def)
  then show ?thesis by simp
qed

lemma runSend_settled:
  assumes "settled st"
  shows "settled (step RunSend st)"
proof (cases "sendJobs st")
  case Nil
  then show ?thesis using assms by simp
next
  case (Cons e js)
  let ?s = "st\<lparr>sendJobs := js, inflight := inflight st @ [e], trace := trace st @ [Send e]\<rparr>"
  from assms have w: "gates st" "fresh_handles st" "fifo_hist st" "id_hist st"
    and b: "isProcessing st \<longrightarrow> activeRequests st \<noteq> []"
    by (simp_all add: settled_def coherent_def)
  have le: "length (sends (trace st)) \<le> length (emits (trace st))"
    using fifo_hist_counts[OF w(3)] w(1) Cons by (simp add: gates_def)
  have "gates ?s = gates st" by (rule gates_cong) simp_all
  moreover have "fresh_handles ?s = fresh_handles st" by (rule fresh_handles_cong) simp_all
  moreover have "id_hist ?s = id_hist st" by (rule id_hist_cong) simp_all
  moreover have "fifo_hist ?s" using w(3) Cons le by (simp add: fifo_hist_def serialized_snoc)
  ultimately have "settled ?s" using w b by (simp add: settled_def coherent_def)
  then show ?thesis using Cons by simp
qed

lemma step_settled: "settled st \<Longrightarrow> settled (step ev st)"
proof (cases ev)
  case (AddRequest p)
  assume "settled st" then show ?thesis using AddRequest by (simp add: call_addRequest_settled)
next
  case RunSend
  assume "settled st" then show ?thesis using RunSend by (simp only: runSend_settled)
next
  case (Resolve k r obs)
  assume "settled st" then show ?thesis using Resolve by (simp add: onResolved_settled settled_inflight)
next
  case (Reject k e obs)
  assume "settled st" then show ?thesis using Reject by (simp add: onRejected_settled settled_inflight)
next
  case (TimerFire h obs)
  assume "settled st" then show ?thesis using TimerFire
    by (simp add: Let_def handleTimeout_settled delayExpired_settled settled_timers_filter
          split: option.splits cb.splits)
qed

lemma run_settled: "settled st \<Longrightarrow> settled (run st evs)"
  unfolding run_def by (induction evs arbitrary: st) (simp_all add: step_settled)

lemma reachable_settled: "settled (run (init N td sd) evs)"
  by (rule run_settled[OF init_settled])

lemma config_update [simp]:
  "config (st\<lparr>queue := q\<rparr>) = config st"
  "config (st\<lparr>activeRequests := a\<rparr>) = config st"
  "config (st\<lparr>isProcessing := b\<rparr>) = config st"
  "config (st\<lparr>isDelaying := b\<rparr>) = config st"
  "config (st\<lparr>requestCounter := c\<rparr>) = config st"
  "config (st\<lparr>timers := ts\<rparr>) = config st"
  "config (st\<lparr>nextHandle := h\<rparr>) = config st"
  "config (st\<lparr>sendJobs := js\<rparr>) = config st"
  "config (st\<lparr>inflight := fl\<rparr>) = config st"
  "config (st\<lparr>trace := t\<rparr>) = config st"
  by (simp_all add: config_def)

lemma config_tryProcessNext [simp]: "config (tryProcessNext st) = config st"
  by (cases st rule: tryProcessNext_cases) simp_all

lemma config_call_addRequest [simp]: "config (call_addRequest p st) = config st"
  by (simp add: call_addRequest_push) (simp add: push_def)

lemma config_fold_call [simp]: "config (fold call_addRequest ps st) = config st"
  by (induction ps arbitrary: st) simp_all

lemma config_run_listeners [simp]: "config (fst (run_listeners obs st)) = config st"
  by (induction obs arbitrary: st) (simp_all add: Let_def)

lemma config_emit [simp]: "config (fst (emit n obs st)) = config st"
  by (simp add: emit_def Let_def)

lemma config_scheduleNextProcess [simp]: "config (scheduleNextProcess st) = config st"
  by (simp add: scheduleNextProcess_def setTimeout_def split: option.splits)

lemma config_finish [simp]: "config (finish r tag) = config (fst r)"
  by (simp add: finish_def console_log_def)

lemma config_handleTimeout [simp]: "config (handleTimeout i obs st) = config st"
  by (cases "map_of (activeRequests st) i") (simp_all add: handleTimeout_None handleTimeout_Some)

lemma config_handleError [simp]: "config (handleError i err obs st) = config st"
  by (cases "map_of (activeRequests st) i") (simp_all add: handleError_None handleError_Some)

lemma config_onResolved [simp]: "config (onResolved currentReq currentResp obs st) = config st"
  by (cases currentResp obs st rule: handleResponse_cases) (simp_all add: onResolved_def)

lemma config_step [simp]: "config (step ev st) = config st"
  by (cases ev)
     (simp_all add: onRejected_def delayExpired_def Let_def split: list.splits option.splits cb.splits)

lemma config_run [simp]: "config (run st evs) = config st"
  unfolding run_def by (induction evs arbitrary: st) simp_all

lemma maxId_run [simp]: "maxId (run (init N td sd) evs) = N"
  using config_run[of "init N td sd" evs] by (simp add: config_def init_def)

section \<open>The copy simulates the class when no delay is configured\<close>

lemma proj_update [simp]:
  "proj (st\<lparr>queue := q\<rparr>) = (proj st)\<lparr>queue_dup := q\<rparr>"
  "proj (st\<lparr>activeRequests := a\<rparr>) = (proj st)\<lparr>activeRequests_dup := a\<rparr>"
  "proj (st\<lparr>isProcessing := b\<rparr>) = (proj st)\<lparr>isProcessing_dup := b\<rparr>"
  "proj (st\<lparr>isDelaying := b\<rparr>) = proj st"
  "proj (st\<lparr>requestCounter := c\<rparr>) = (proj st)\<lparr>requestCounter_dup := c\<rparr>"
  "proj (st\<lparr>timers := ts\<rparr>) = (proj st)\<lparr>timers_dup := ts\<rparr>"
  "proj (st\<lparr>nextHandle := h\<rparr>) = (proj st)\<lparr>nextHandle_dup := h\<rparr>"
  "proj (st\<lparr>sendJobs := js\<rparr>) = (proj st)\<lparr>sendJobs_dup := js\<rparr>"
  "proj (st\<lparr>inflight := fl\<rparr>) = (proj st)\<lparr>inflight_dup := fl\<rparr>"
  "proj (st\<lparr>trace := t\<rparr>) = (proj st)\<lparr>trace_dup := t\<rparr>"
  by (simp_all add: proj_def)

lemma proj_fields [simp]:
  "maxId_dup (proj st) = maxId st"
  "timeoutDuration_dup (proj st) = timeoutDuration st"
  "queue_dup (proj st) = queue st"
  "activeRequests_dup (proj st) = activeRequests st"
  "isProcessing_dup (proj st) = isProcessing st"
  "requestCounter_dup (proj st) = requestCounter st"
  "timers_dup (proj st) = timers st"
  "nextHandle_dup (proj st) = nextHandle st"
  "sendJobs_dup (proj st) = sendJobs st"
  "inflight_dup (proj st) = inflight st"
  "trace_dup (proj st) = trace st"
  by (simp_all add: proj_def)

lemma plain_update [simp]:
  "plain (st\<lparr>queue := q\<rparr>) = plain st"
  "plain (st\<lparr>activeRequests := a\<rparr>) = plain st"
  "plain (st\<lparr>isProcessing := b\<rparr>) = plain st"
  "plain (st\<lparr>requestCounter := c\<rparr>) = plain st"
  "plain (st\<lparr>nextHandle := h\<rparr>) = plain st"
  "plain (st\<lparr>sendJobs := js\<rparr>) = plain st"
  "plain (st\<lparr>inflight := fl\<rparr>) = plain st"
  "plain (st\<lparr>trace := t\<rparr>) = plain st"
  by (simp_all add: plain_def)

lemma plain_timers_filter [simp]: "plain st \<Longrightarrow> plain (st\<lparr>timers := filter P (timers st)\<rparr>)"
  by (simp add: plain_def list_all_iff)

lemma proj_tryProcessNext [simp]:
  "plain st \<Longrightarrow> proj (tryProcessNext st) = tryProcessNext_dup (proj st)"
  by (cases "queue st")
     (simp_all add: plain_def tryProcessNext_def tryProcessNext_dup_def setTimeout_def setTimeout_dup_def)

lemma plain_tryProcessNext [simp]: "plain st \<Longrightarrow> plain (tryProcessNext st)"
  by (cases "queue st")
     (simp_all add: tryProcessNext_def plain_def setTimeout_def)

lemma tryProcessNext_dup_trace [simp]: "trace_dup (tryProcessNext_dup st) = trace_dup st"
  by (simp add: tryProcessNext_dup_def setTimeout_dup_def Let_def split: list.splits)

lemma proj_generateId [simp]:
  "fst (generateId_dup (proj st)) = fst (generateId st)"
  "snd (generateId_dup (proj st)) = proj (snd (generateId st))"
  "plain (snd (generateId st)) = plain st"
  by (simp_all add: generateId_def generateId_dup_def)

lemma proj_call_addRequest [simp]:
  "plain st \<Longrightarrow> proj (call_addRequest p st) = call_addRequest_dup p (proj st)"
  by (simp add: call_addRequest_def call_addRequest_dup_def addRequest_def addRequest_dup_def
        case_prod_unfold Let_def)

lemma plain_call_addRequest [simp]: "plain st \<Longrightarrow> plain (call_addRequest p st)"
  by (simp add: call_addRequest_def addRequest_def case_prod_unfold Let_def)

lemma proj_fold_call [simp]:
  "plain st \<Longrightarrow> proj (fold call_addRequest ps st) = fold call_addRequest_dup ps (proj st)
     \<and> plain (fold call_addRequest ps st)"
  by (induction ps arbitrary: st) simp_all

lemma proj_run_listeners:
  "plain st \<Longrightarrow>
     proj (fst (run_listeners obs st)) = fst (run_listeners_dup obs (proj st)) \<and>
     snd (run_listeners obs st) = snd (run_listeners_dup obs (proj st)) \<and>
     plain (fst (run_listeners obs st))"
  by (induction obs arbitrary: st) (simp_all add: Let_def)

lemma proj_emit:
  "plain st \<Longrightarrow>
     proj (fst (emit n obs st)) = fst (emit_dup n obs (proj st)) \<and>
     snd (emit n obs st) = snd (emit_dup n obs (proj st)) \<and>
     plain (fst (emit n obs st))"
  using proj_run_listeners[of "st\<lparr>trace := trace st @ [Emit n]\<rparr>" obs]
  by (simp add: emit_def emit_dup_def Let_def)

lemma scheduleNextProcess_plain: "plain st \<Longrightarrow> scheduleNextProcess st = tryProcessNext st"
  by (auto simp add: scheduleNextProcess_def plain_def tryProcessNext_def split: option.splits)

lemma proj_console_log [simp]:
  "proj (console_log s st) = console_log_dup s (proj st)"
  "plain (console_log s st) = plain st"
  by (simp_all add: console_log_def console_log_dup_def)

lemma proj_clearTimeout [simp]:
  "proj (clearTimeout h st) = clearTimeout_dup h (proj st)"
  "plain st \<Longrightarrow> plain (clearTimeout h st)"
  by (simp_all add: clearTimeout_def clearTimeout_dup_def)

lemma proj_handleTimeout:
  assumes "plain st"
  shows "proj (handleTimeout i obs st) = handleTimeout_dup i obs (proj st) \<and> plain (handleTimeout i obs st)"
proof (cases "map_of (activeRequests st) i")
  case None
  then show ?thesis using assms by (simp add: handleTimeout_def handleTimeout_dup_def)
next
  case (Some a)
  let ?s1 = "st\<lparr>activeRequests := AList.delete i (activeRequests st)\<rparr>"
  have p1: "plain ?s1" using assms by simp
  note e = proj_emit[OF p1, of "Timeout i (snd a)" obs]
  show ?thesis
    using Some e
    by (simp add: handleTimeout_def handleTimeout_dup_def case_prod_unfold Let_def scheduleNextProcess_plain)
qed

lemma proj_handleError:
  assumes "plain st"
  shows "proj (handleError i err obs st) = handleError_dup i err obs (proj st) \<and> plain (handleError i err obs st)"
proof (cases "map_of (activeRequests st) i")
  case None
  then show ?thesis using assms by (simp add: handleError_def handleError_dup_def)
next
  case (Some a)
  let ?s1 = "st\<lparr>timers := filter (\<lambda>t. fst t \<noteq> fst a) (timers st),
                activeRequests := AList.delete i (activeRequests st)\<rparr>"
  have p1: "plain ?s1" using assms by simp
  note e = proj_emit[OF p1, of "Error i (snd a) err" obs]
  show ?thesis
    using Some e
    by (simp add: handleError_def handleError_dup_def case_prod_unfold Let_def
          clearTimeout_def clearTimeout_dup_def scheduleNextProcess_plain)
qed

lemma proj_handleResponse:
  assumes "plain st"
  shows "map_sum id proj (handleResponse r obs st) = handleResponse_dup r obs (proj st) \<and>
         (\<forall>st'. handleResponse r obs st = Inr st' \<longrightarrow> plain st')"
proof (cases r)
  case Nullish
  then show ?thesis by (simp add: handleResponse_def handleResponse_dup_def)
next
  case (Value isobj rid ownid resp)
  show ?thesis
  proof (cases rid)
    case None
    then show ?thesis using Value assms by (simp add: handleResponse_def handleResponse_dup_def)
  next
    case i: (Some i)
    show ?thesis
    proof (cases "map_of (activeRequests st) i")
      case None
      then show ?thesis using Value i assms by (simp add: handleResponse_def handleResponse_dup_def)
    next
      case (Some a)
      let ?s1 = "st\<lparr>timers := filter (\<lambda>t. fst t \<noteq> fst a) (timers st),
                    activeRequests := AList.delete i (activeRequests st)\<rparr>"
      have p1: "plain ?s1" using assms by simp
      note e = proj_emit[OF p1, of "Success r" obs]
      show ?thesis
      proof (cases "shape_test r")
        case (Inl x)
        then show ?thesis
          using Some Value i by (simp add: handleResponse_def handleResponse_dup_def)
      next
        case (Inr ok)
        show ?thesis
        proof (cases ok)
          case False
          then show ?thesis
            using Inr Some Value i by (simp add: handleResponse_def handleResponse_dup_def)
        next
          case True
          have l: "handleResponse r obs st =
              Inr (scheduleNextProcess
                ((if snd (emit (Success r) obs ?s1)
                  then console_log ''emit success'' (fst (emit (Success r) obs ?s1))
                  else fst (emit (Success r) obs ?s1))\<lparr>isProcessing := False\<rparr>))"
            using Some Value i True Inr
            by (simp add: handleResponse_def case_prod_unfold Let_def clearTimeout_def)
          have r: "handleResponse_dup r obs (proj st) =
              Inr (tryProcessNext_dup
                ((if snd (emit_dup (Success r) obs (proj ?s1))
                  then console_log_dup ''emit success'' (fst (emit_dup (Success r) obs (proj ?s1)))
                  else fst (emit_dup (Success r) obs (proj ?s1)))\<lparr>isProcessing_dup := False\<rparr>))"
            using Some Value i True Inr
            by (simp add: handleResponse_dup_def case_prod_unfold Let_def clearTimeout_dup_def)
          show ?thesis
            unfolding l r using e by (simp add: scheduleNextProcess_plain)
        qed
      qed
    qed
  qed
qed

lemma proj_onResolved:
  assumes "plain st"
  shows "proj (onResolved c r obs st) = onResolved_dup c r obs (proj st) \<and> plain (onResolved c r obs st)"
proof (cases "handleResponse r obs st")
  case (Inl err)
  then have "handleResponse_dup r obs (proj st) = Inl err"
    using proj_handleResponse[OF assms, of r obs] by simp
  with Inl show ?thesis
    using proj_handleError[OF assms] by (simp add: onResolved_def onResolved_dup_def)
next
  case (Inr st')
  then have "handleResponse_dup r obs (proj st) = Inr (proj st')" "plain st'"
    using proj_handleResponse[OF assms, of r obs] by simp_all
  with Inr show ?thesis by (simp add: onResolved_def onResolved_dup_def)
qed

lemma proj_step:
  assumes "plain st"
  shows "proj (step ev st) = step_dup ev (proj st) \<and> plain (step ev st)"
proof (cases ev)
  case (AddRequest p)
  then show ?thesis using assms by simp
next
  case RunSend
  then show ?thesis using assms by (simp split: list.splits)
next
  case (Resolve k r obs)
  then show ?thesis
    using assms proj_onResolved[of "st\<lparr>inflight := take k (inflight st) @ drop (Suc k) (inflight st)\<rparr>"]
    by simp
next
  case (Reject k e obs)
  then show ?thesis
    using assms proj_handleError[of "st\<lparr>inflight := take k (inflight st) @ drop (Suc k) (inflight st)\<rparr>"]
    by (simp add: onRejected_def onRejected_dup_def)
next
  case (TimerFire h obs)
  show ?thesis
  proof (cases "find (\<lambda>t. fst t = h) (timers st)")
    case None
    then show ?thesis using TimerFire assms by simp
  next
    case (Some t)
    then have "t \<in> set (timers st)" by (auto simp: find_Some_iff)
    then obtain i where cbk: "snd (snd t) = TimeoutCb i"
      using assms by (cases "snd (snd t)") (auto simp: plain_def list_all_iff)
    show ?thesis
      using TimerFire Some cbk assms
        proj_handleTimeout[of "st\<lparr>timers := filter (\<lambda>t. fst t \<noteq> h) (timers st)\<rparr>" i obs]
      by (simp add: Let_def)
  qed
qed

lemma proj_run:
  "plain st \<Longrightarrow> proj (run st evs) = run_dup (proj st) evs \<and> plain (run st evs)"
  unfolding run_def run_dup_def
  by (induction evs arbitrary: st) (simp_all add: proj_step)

lemma proj_init: "proj (init N td sd) = init_dup N td"
  by (simp add: proj_def init_def init_dup_def)

section \<open>The id sequence\<close>

lemma ids_zero: "map (\<lambda>k. int k mod (0 + 1)) ks = replicate (length ks) 0"
  by (simp add: map_replicate_const)

lemma ids_wrap:
  assumes "0 < N"
  shows "map (\<lambda>k. int k mod (N + 1)) [1 ..< Suc (nat N + 2)] = map int [1 ..< Suc (nat N)] @ [0, 1]"
proof -
  have split: "[1 ..< Suc (nat N + 2)] = [1 ..< Suc (nat N)] @ [nat N + 1, nat N + 2]"
    by (simp add: upt_rec[of "Suc (nat N)"] flip: upt_add_eq_append[of 1 "Suc (nat N)" 2, simplified])
  have small: "map (\<lambda>k. int k mod (N + 1)) [1 ..< Suc (nat N)] = map int [1 ..< Suc (nat N)]"
    using assms by (intro map_cong) auto
  have "int (nat N + 1) = N + 1" using assms by simp
  then have a: "int (nat N + 1) mod (N + 1) = 0" by (simp only: mod_self)
  have "int (nat N + 2) = (N + 1) + 1" using assms by simp
  then have "int (nat N + 2) mod (N + 1) = ((N + 1) + 1) mod (N + 1)" by (simp only:)
  also have "\<dots> = 1 mod (N + 1)" by (simp only: mod_add_self1)
  also have "\<dots> = 1" using assms by simp
  finally have b: "int (nat N + 2) mod (N + 1) = 1" .
  show ?thesis unfolding split using small a b by simp
qed

section \<open>Timer handles\<close>

lemma filter_fresh:
  "fresh_handles st \<Longrightarrow> filter (\<lambda>t. fst t \<noteq> nextHandle st) (timers st) = timers st"
  by (auto simp: fresh_handles_def filter_id_conv)

lemma find_snoc:
  "\<forall>t \<in> set ts. fst t \<noteq> h \<Longrightarrow> find (\<lambda>t. fst t = h) (ts @ [(h, d, c)]) = Some (h, d, c)"
  by (induction ts) auto

lemma find_fresh:
  "fresh_handles st \<Longrightarrow> find (\<lambda>t. fst t = nextHandle st) (timers st @ [(nextHandle st, d, c)])
     = Some (nextHandle st, d, c)"
  by (rule find_snoc) (auto simp: fresh_handles_def)

section \<open>Listeners and the history of a handler\<close>

lemma call_addRequest_gated: "isProcessing st \<Longrightarrow> call_addRequest p st = push p st"
  by (simp add: call_addRequest_push tryProcessNext_gated)

lemma push_frame [simp]:
  "timers (push p st) = timers st"
  "nextHandle (push p st) = nextHandle st"
  "sendJobs (push p st) = sendJobs st"
  "inflight (push p st) = inflight st"
  by (simp_all add: push_def)

lemma fold_call_gated:
  "isProcessing st \<Longrightarrow>
     isProcessing (fold call_addRequest ps st) \<and>
     activeRequests (fold call_addRequest ps st) = activeRequests st \<and>
     timers (fold call_addRequest ps st) = timers st \<and>
     nextHandle (fold call_addRequest ps st) = nextHandle st"
  by (induction ps arbitrary: st) (simp_all add: call_addRequest_gated)

lemma run_listeners_gated:
  "isProcessing st \<Longrightarrow>
     isProcessing (fst (run_listeners obs st)) \<and>
     activeRequests (fst (run_listeners obs st)) = activeRequests st \<and>
     timers (fst (run_listeners obs st)) = timers st \<and>
     nextHandle (fst (run_listeners obs st)) = nextHandle st"
  by (induction obs arbitrary: st) (simp_all add: Let_def fold_call_gated)

lemma run_listeners_throws: "snd (run_listeners obs st) = list_ex throws obs"
  by (induction obs arbitrary: st) (simp_all add: Let_def)

lemma emit_gated:
  "isProcessing st \<Longrightarrow>
     isProcessing (fst (emit n obs st)) \<and>
     activeRequests (fst (emit n obs st)) = activeRequests st \<and>
     timers (fst (emit n obs st)) = timers st \<and>
     nextHandle (fst (emit n obs st)) = nextHandle st"
  using run_listeners_gated[of "st\<lparr>trace := trace st @ [Emit n]\<rparr>" obs]
  by (simp add: emit_def Let_def)

lemma emit_throws:
  "snd (emit n obs st) = (if obs = [] then is_error n else list_ex throws obs)"
  by (simp add: emit_def Let_def run_listeners_throws)

lemma hist_push [simp]:
  "emits (trace (push p st)) = emits (trace st)"
  "sends (trace (push p st)) = sends (trace st)"
  by (simp_all add: push_def)

lemma hist_call_addRequest [simp]:
  "emits (trace (call_addRequest p st)) = emits (trace st)"
  "sends (trace (call_addRequest p st)) = sends (trace st)"
  by (simp_all add: call_addRequest_push)

lemma hist_fold_call [simp]:
  "emits (trace (fold call_addRequest ps st)) = emits (trace st)"
  "sends (trace (fold call_addRequest ps st)) = sends (trace st)"
  by (induction ps arbitrary: st) simp_all

lemma hist_run_listeners [simp]:
  "emits (trace (fst (run_listeners obs st))) = emits (trace st)"
  "sends (trace (fst (run_listeners obs st))) = sends (trace st)"
  by (induction obs arbitrary: st) (simp_all add: Let_def)

lemma hist_emit [simp]:
  "emits (trace (fst (emit n obs st))) = emits (trace st) @ [n]"
  "sends (trace (fst (emit n obs st))) = sends (trace st)"
  by (simp_all add: emit_def Let_def)

lemma trace_scheduleNextProcess [simp]: "trace (scheduleNextProcess st) = trace st"
  by (simp add: scheduleNextProcess_def setTimeout_def split: option.splits)

lemma hist_finish [simp]:
  "emits (trace (finish r tag)) = emits (trace (fst r))"
  "sends (trace (finish r tag)) = sends (trace (fst r))"
  by (simp_all add: finish_def console_log_def)

lemma hist_handleTimeout:
  "map_of (activeRequests st) i = Some a \<Longrightarrow>
     emits (trace (handleTimeout i obs st)) = emits (trace st) @ [Timeout i (snd a)] \<and>
     sends (trace (handleTimeout i obs st)) = sends (trace st)"
  by (simp add: handleTimeout_Some)

lemma hist_handleError:
  "map_of (activeRequests st) i = Some a \<Longrightarrow>
     emits (trace (handleError i err obs st)) = emits (trace st) @ [Error i (snd a) err] \<and>
     sends (trace (handleError i err obs st)) = sends (trace st)"
  by (simp add: handleError_Some)

section \<open>Invariants under calls in any order\<close>

lemma invoke_settled: "settled st \<Longrightarrow> settled (invoke c st)"
  by (cases c)
     (auto simp: call_addRequest_settled tryProcessNext_settled handleTimeout_settled
        handleError_settled delayExpired_settled step_settled
        split: sum.splits dest: handleResponse_settled)

lemma fold_invoke_settled: "settled st \<Longrightarrow> settled (fold invoke cs st)"
  by (induction cs arbitrary: st) (simp_all add: invoke_settled)

lemma config_invoke [simp]: "config (invoke c st) = config st"
proof (cases c)
  case (Respond r obs)
  then show ?thesis
    by (cases r obs st rule: handleResponse_cases) simp_all
qed (simp_all add: delayExpired_def)

lemma config_fold_invoke [simp]: "config (fold invoke cs st) = config st"
  by (induction cs arbitrary: st) simp_all

lemma run_invoke: "run st evs = fold invoke (map Loop evs) st"
  unfolding run_def by (induction evs arbitrary: st) simp_all

lemma settled_invariants:
  assumes "settled st"
  shows "getActiveCount st \<le> 1 \<and> \<not> (isProcessing st \<and> isDelaying st) \<and>
         (0 \<le> maxId st \<longrightarrow> 0 \<le> requestCounter st \<and> requestCounter st \<le> maxId st)"
proof -
  from assms have g: "gates st" and h: "id_hist st" by (simp_all add: settled_def coherent_def)
  have "0 \<le> requestCounter st \<and> requestCounter st \<le> maxId st" if m: "0 \<le> maxId st"
  proof -
    from h m
    have c: "requestCounter st = int (length (returns (trace st))) mod (maxId st + 1)"
      by (simp add: id_hist_def)
    show ?thesis
      unfolding c
      using m pos_mod_sign[of "maxId st + 1" "int (length (returns (trace st)))"]
        pos_mod_bound[of "maxId st + 1" "int (length (returns (trace st)))"]
      by linarith
  qed
  with g show ?thesis by (simp add: gates_def getActiveCount_def)
qed

lemma maxId_fold_invoke [simp]: "maxId (fold invoke cs (init N td sd)) = N"
  using config_fold_invoke[of cs "init N td sd"] by (simp add: config_def init_def)

section \<open>Timers and active entries\<close>


lemma timers_match_cong:
  "timers s' = timers s \<Longrightarrow> activeRequests s' = activeRequests s \<Longrightarrow>
   timers_match s' = timers_match s"
  by (simp add: timers_match_def)

lemma timers_match_tryProcessNext:
  assumes "timers_match st" "gates st"
  shows "timers_match (tryProcessNext st)"
proof (cases st rule: tryProcessNext_cases)
  case gated
  then show ?thesis using assms by simp
next
  case (admit i p rest)
  have a: "activeRequests st = []"
    using assms(2) admit(1) by (auto simp: gates_def)
  show ?thesis
    using assms(1) a by (auto simp: admit(4) timers_match_def)
qed

lemma timers_match_call_addRequest:
  assumes "timers_match st" "gates st"
  shows "timers_match (call_addRequest p st)"
proof -
  have "timers_match (push p st) = timers_match st"
    by (rule timers_match_cong) simp_all
  moreover have "gates (push p st) = gates st"
    by (rule gates_cong) simp_all
  ultimately show ?thesis
    unfolding call_addRequest_push using assms by (simp add: timers_match_tryProcessNext)
qed

lemma timers_match_scheduleNextProcess:
  assumes "timers_match st" "gates st"
  shows "timers_match (scheduleNextProcess st)"
proof -
  have d: "timers_match (snd (setTimeout DelayCb d (st\<lparr>isDelaying := True\<rparr>)))" for d
    using assms(1) by (auto simp: timers_match_def setTimeout_def)
  show ?thesis
    using assms d timers_match_tryProcessNext[OF assms]
    by (simp add: scheduleNextProcess_def split: option.splits)
qed

lemma timers_match_finish:
  assumes "isProcessing s" "activeRequests s = []" "timers_match s"
  shows "timers_match (finish (emit n obs s) tag)"
proof -
  define f where
    "f = (if snd (emit n obs s) then console_log tag (fst (emit n obs s))
          else fst (emit n obs s))\<lparr>isProcessing := False\<rparr>"
  note g = emit_gated[OF assms(1), of n obs]
  have "timers_match f = timers_match s"
    by (rule timers_match_cong) (simp_all add: f_def g console_log_def)
  then have m: "timers_match f" using assms(3) by simp
  have "activeRequests f = []" using g assms(2) by (simp add: f_def console_log_def)
  then have gt: "gates f" by (simp add: gates_def f_def)
  have "finish (emit n obs s) tag = scheduleNextProcess f"
    by (simp add: finish_def f_def)
  then show ?thesis
    using timers_match_scheduleNextProcess[OF m gt] by simp
qed

lemma timers_match_cleared:
  assumes "timers_match st" "activeRequests st = [(i, h, p)]"
  shows "timers_match (st\<lparr>timers := filter (\<lambda>t. fst t \<noteq> h) (timers st), activeRequests := []\<rparr>)"
  using assms by (auto simp: timers_match_def)

lemma delete_single: "AList.delete i [(i, a)] = []"
  by simp

lemma timers_match_handleError:
  assumes "settled st" "timers_match st"
  shows "timers_match (handleError i err obs st)"
proof (cases "map_of (activeRequests st) i")
  case None
  then show ?thesis using assms by (simp add: handleError_None)
next
  case (Some a)
  from assms(1) have g: "gates st" by (simp add: settled_def coherent_def)
  note single = active_single[OF g Some]
  let ?s = "st\<lparr>timers := filter (\<lambda>t. fst t \<noteq> fst a) (timers st), activeRequests := []\<rparr>"
  have "timers_match ?s"
    using timers_match_cleared[OF assms(2), of i "fst a" "snd a"] single(1) by simp
  then have "timers_match (finish (emit (Error i (snd a) err) obs ?s) ''emit error'')"
    using single(2) by (intro timers_match_finish) simp_all
  then show ?thesis
    using handleError_Some[OF Some, of err obs] single(1) by simp
qed

lemma timers_match_handleResponse:
  assumes "settled st" "timers_match st" "handleResponse r obs st = Inr st'"
  shows "timers_match st'"
proof (cases r obs st rule: handleResponse_cases)
  case (raises x)
  with assms(3) show ?thesis by simp
next
  case stale
  with assms show ?thesis by simp
next
  case (success i a v)
  from assms(1) have g: "gates st" by (simp add: settled_def coherent_def)
  note single = active_single[OF g success(2)]
  let ?s = "st\<lparr>timers := filter (\<lambda>t. fst t \<noteq> fst a) (timers st), activeRequests := []\<rparr>"
  have "timers_match ?s"
    using timers_match_cleared[OF assms(2), of i "fst a" "snd a"] single(1) by simp
  then have "timers_match (finish (emit (Success r) obs ?s) ''emit success'')"
    using single(2) by (intro timers_match_finish) simp_all
  then show ?thesis
    using success(3) assms(3) single(1) by simp
qed

lemma timers_match_fired:
  assumes "settled st" "timers_match st" "find (\<lambda>t. fst t = h) (timers st) = Some t"
    "snd (snd t) = TimeoutCb i"
  shows "timers_match (handleTimeout i obs (st\<lparr>timers := filter (\<lambda>t. fst t \<noteq> h) (timers st)\<rparr>))"
proof -
  from assms(1) have g: "gates st" by (simp add: settled_def coherent_def)
  from assms(3) have t: "t \<in> set (timers st)" "fst t = h"
    by (auto simp: find_Some_iff)
  with assms(2,4) obtain p where "(i, h, p) \<in> set (activeRequests st)"
    by (auto simp: timers_match_def)
  with g have single: "activeRequests st = [(i, h, p)]" "isProcessing st"
    by (cases "activeRequests st"; auto simp: gates_def)+
  let ?s = "st\<lparr>timers := filter (\<lambda>t. fst t \<noteq> h) (timers st), activeRequests := []\<rparr>"
  have "timers_match ?s"
    by (rule timers_match_cleared[OF assms(2) single(1)])
  then have "timers_match (finish (emit (Timeout i p) obs ?s) ''emit timeout'')"
    using single(2) by (intro timers_match_finish) simp_all
  moreover have "handleTimeout i obs (st\<lparr>timers := filter (\<lambda>t. fst t \<noteq> h) (timers st)\<rparr>)
      = finish (emit (Timeout i p) obs ?s) ''emit timeout''"
    using handleTimeout_Some[of "st\<lparr>timers := filter (\<lambda>t. fst t \<noteq> h) (timers st)\<rparr>" i "(h, p)" obs]
      single(1) by simp
  ultimately show ?thesis by simp
qed

lemma timers_match_filter:
  "timers_match st \<Longrightarrow> timers_match (st\<lparr>timers := filter P (timers st)\<rparr>)"
  by (auto simp: timers_match_def)

lemma timers_match_step:
  assumes "settled st" "timers_match st"
  shows "timers_match (step ev st)"
proof (cases ev)
  case (AddRequest p)
  from assms(1) have g: "gates st" by (simp add: settled_def coherent_def)
  show ?thesis using AddRequest assms(2) g by (simp add: timers_match_call_addRequest)
next
  case RunSend
  then show ?thesis using assms(2) by (simp add: timers_match_def split: list.splits)
next
  case (Resolve k r obs)
  let ?s = "st\<lparr>inflight := take k (inflight st) @ drop (Suc k) (inflight st)\<rparr>"
  have s: "settled ?s" using assms(1) by (simp add: settled_inflight)
  have m: "timers_match ?s" using assms(2) by (simp add: timers_match_def)
  have "timers_match (onResolved c r obs ?s)" for c
    using timers_match_handleResponse[OF s m] timers_match_handleError[OF s m]
    by (auto simp: onResolved_def split: sum.splits)
  then show ?thesis using Resolve assms(2) by simp
next
  case (Reject k e obs)
  let ?s = "st\<lparr>inflight := take k (inflight st) @ drop (Suc k) (inflight st)\<rparr>"
  have s: "settled ?s" using assms(1) by (simp add: settled_inflight)
  have m: "timers_match ?s" using assms(2) by (simp add: timers_match_def)
  show ?thesis
    using Reject assms(2) timers_match_handleError[OF s m] by (simp add: onRejected_def)
next
  case (TimerFire h obs)
  show ?thesis
  proof (cases "find (\<lambda>t. fst t = h) (timers st)")
    case None
    then show ?thesis using TimerFire assms(2) by simp
  next
    case (Some t)
    show ?thesis
    proof (cases "snd (snd t)")
      case (TimeoutCb i)
      then show ?thesis
        using TimerFire Some timers_match_fired[OF assms Some TimeoutCb, of obs] by (simp add: Let_def)
    next
      case DelayCb
      let ?s = "st\<lparr>timers := filter (\<lambda>t. fst t \<noteq> h) (timers st), isDelaying := False\<rparr>"
      from assms(1) have g: "gates st" by (simp add: settled_def coherent_def)
      have "timers_match ?s" using assms(2) by (auto simp: timers_match_def)
      moreover have "gates ?s" using g by (simp add: gates_def)
      ultimately have "timers_match (tryProcessNext ?s)" by (rule timers_match_tryProcessNext)
      then show ?thesis
        using TimerFire Some DelayCb by (simp add: Let_def delayExpired_def)
    qed
  qed
qed

lemma timers_match_run:
  "settled st \<Longrightarrow> timers_match st \<Longrightarrow> timers_match (run st evs)"
  unfolding run_def
  by (induction evs arbitrary: st) (simp_all add: step_settled timers_match_step)

lemma reachable_timers_match: "timers_match (run (init N td sd) evs)"
  by (rule timers_match_run[OF init_settled]) (simp add: timers_match_def init_def)

section \<open>An active entry stays until it is resolved\<close>


lemma armed_cong:
  "timers s' = timers s \<Longrightarrow> activeRequests s' = activeRequests s \<Longrightarrow>
   timeoutDuration s' = timeoutDuration s \<Longrightarrow> armed s' = armed s"
  by (simp add: armed_def)

lemma armed_empty: "activeRequests st = [] \<Longrightarrow> armed st"
  by (simp add: armed_def)

lemma armed_tryProcessNext:
  assumes "armed st" "gates st" "fresh_handles st"
  shows "armed (tryProcessNext st)"
proof (cases st rule: tryProcessNext_cases)
  case gated
  then show ?thesis using assms by simp
next
  case (admit i p rest)
  have a: "activeRequests st = []"
    using assms(2) admit(1) by (auto simp: gates_def)
  show ?thesis
    using a find_fresh[OF assms(3), of "timeoutDuration st" "TimeoutCb i"]
    by (simp add: admit(4) armed_def)
qed

lemma armed_call_addRequest:
  assumes "armed st" "gates st" "fresh_handles st"
  shows "armed (call_addRequest p st)"
proof -
  have "armed (push p st) = armed st"
    by (rule armed_cong) (simp_all add: push_def)
  moreover have "gates (push p st) = gates st"
    by (rule gates_cong) simp_all
  moreover have "fresh_handles (push p st) = fresh_handles st"
    by (rule fresh_handles_cong) simp_all
  ultimately show ?thesis
    unfolding call_addRequest_push using assms by (simp add: armed_tryProcessNext)
qed

lemma armed_scheduleNextProcess:
  assumes "activeRequests st = []" "gates st" "fresh_handles st"
  shows "armed (scheduleNextProcess st)"
proof -
  have d: "armed (snd (setTimeout DelayCb d (st\<lparr>isDelaying := True\<rparr>)))" for d
    using assms(1) by (simp add: armed_def setTimeout_def)
  show ?thesis
    using assms d armed_tryProcessNext[OF armed_empty[OF assms(1)] assms(2,3)] armed_empty[OF assms(1)]
    by (simp add: scheduleNextProcess_def split: option.splits)
qed

lemma finish_gated:
  assumes "isProcessing s" "activeRequests s = []" "fresh_handles s"
  shows "\<exists>f. finish (emit n obs s) tag = scheduleNextProcess f \<and>
             activeRequests f = [] \<and> gates f \<and> fresh_handles f"
proof -
  define f where
    "f = (if snd (emit n obs s) then console_log tag (fst (emit n obs s))
          else fst (emit n obs s))\<lparr>isProcessing := False\<rparr>"
  note g = emit_gated[OF assms(1), of n obs]
  have "activeRequests f = []" using g assms(2) by (simp add: f_def console_log_def)
  moreover from this have "gates f" by (simp add: gates_def f_def)
  moreover have "fresh_handles f = fresh_handles s"
    by (rule fresh_handles_cong) (simp_all add: f_def g console_log_def)
  moreover have "finish (emit n obs s) tag = scheduleNextProcess f"
    by (simp add: finish_def f_def)
  ultimately show ?thesis using assms(3) by blast
qed

lemma armed_finish:
  assumes "isProcessing s" "activeRequests s = []" "fresh_handles s"
  shows "armed (finish (emit n obs s) tag)"
proof -
  from finish_gated[OF assms, of n obs tag] obtain f where
    "finish (emit n obs s) tag = scheduleNextProcess f" "activeRequests f = []" "gates f"
    "fresh_handles f" by blast
  then show ?thesis by (simp add: armed_scheduleNextProcess)
qed

lemma fresh_handles_filter:
  "fresh_handles st \<Longrightarrow> fresh_handles (st\<lparr>timers := filter P (timers st), activeRequests := a\<rparr>)"
  by (simp add: fresh_handles_def)

lemma armed_handleError:
  assumes "settled st" "armed st"
  shows "armed (handleError i err obs st)"
proof (cases "map_of (activeRequests st) i")
  case None
  then show ?thesis using assms by (simp add: handleError_None)
next
  case (Some a)
  from assms(1) have g: "gates st" and f: "fresh_handles st"
    by (simp_all add: settled_def coherent_def)
  note single = active_single[OF g Some]
  let ?s = "st\<lparr>timers := filter (\<lambda>t. fst t \<noteq> fst a) (timers st), activeRequests := []\<rparr>"
  have "armed (finish (emit (Error i (snd a) err) obs ?s) ''emit error'')"
    using single(2) fresh_handles_filter[OF f] by (intro armed_finish) simp_all
  then show ?thesis
    using handleError_Some[OF Some, of err obs] single(1) by simp
qed

lemma armed_handleResponse:
  assumes "settled st" "armed st" "handleResponse r obs st = Inr st'"
  shows "armed st'"
proof (cases r obs st rule: handleResponse_cases)
  case (raises x)
  with assms(3) show ?thesis by simp
next
  case stale
  with assms show ?thesis by simp
next
  case (success i a v)
  from assms(1) have g: "gates st" and f: "fresh_handles st"
    by (simp_all add: settled_def coherent_def)
  note single = active_single[OF g success(2)]
  let ?s = "st\<lparr>timers := filter (\<lambda>t. fst t \<noteq> fst a) (timers st), activeRequests := []\<rparr>"
  have "armed (finish (emit (Success r) obs ?s) ''emit success'')"
    using single(2) fresh_handles_filter[OF f] by (intro armed_finish) simp_all
  then show ?thesis
    using success(3) assms(3) single(1) by simp
qed

lemma fired_is_active:
  assumes "settled st" "timers_match st" "find (\<lambda>t. fst t = h) (timers st) = Some t"
    "snd (snd t) = TimeoutCb i"
  shows "\<exists>p. activeRequests st = [(i, h, p)] \<and> isProcessing st"
proof -
  from assms(1) have g: "gates st" by (simp add: settled_def coherent_def)
  from assms(3) have t: "t \<in> set (timers st)" "fst t = h"
    by (auto simp: find_Some_iff)
  with assms(2,4) obtain p where "(i, h, p) \<in> set (activeRequests st)"
    by (auto simp: timers_match_def)
  with g have "activeRequests st = [(i, h, p)]" "isProcessing st"
    by (cases "activeRequests st"; auto simp: gates_def)+
  then show ?thesis by blast
qed

lemma fired_finish:
  assumes "activeRequests st = [(i, h, p)]"
  shows "handleTimeout i obs (st\<lparr>timers := filter (\<lambda>t. fst t \<noteq> h) (timers st)\<rparr>)
      = finish (emit (Timeout i p) obs
          (st\<lparr>timers := filter (\<lambda>t. fst t \<noteq> h) (timers st), activeRequests := []\<rparr>))
          ''emit timeout''"
  using handleTimeout_Some[of "st\<lparr>timers := filter (\<lambda>t. fst t \<noteq> h) (timers st)\<rparr>" i "(h, p)" obs]
    assms by simp

lemma find_filter_other:
  "h \<noteq> h' \<Longrightarrow> find (\<lambda>t. fst t = h) (filter (\<lambda>t. fst t \<noteq> h') ts) = find (\<lambda>t. fst t = h) ts"
  by (induction ts) auto

lemma armed_step:
  assumes "settled st" "timers_match st" "armed st"
  shows "armed (step ev st)"
proof (cases ev)
  case (AddRequest p)
  from assms(1) have "gates st" "fresh_handles st" by (simp_all add: settled_def coherent_def)
  then show ?thesis using AddRequest assms(3) by (simp add: armed_call_addRequest)
next
  case RunSend
  then show ?thesis using assms(3) by (simp add: armed_def split: list.splits)
next
  case (Resolve k r obs)
  let ?s = "st\<lparr>inflight := take k (inflight st) @ drop (Suc k) (inflight st)\<rparr>"
  have s: "settled ?s" using assms(1) by (simp add: settled_inflight)
  have m: "armed ?s" using assms(3) by (simp add: armed_def)
  have "armed (onResolved c r obs ?s)" for c
    using armed_handleResponse[OF s m] armed_handleError[OF s m]
    by (auto simp: onResolved_def split: sum.splits)
  then show ?thesis using Resolve assms(3) by simp
next
  case (Reject k e obs)
  let ?s = "st\<lparr>inflight := take k (inflight st) @ drop (Suc k) (inflight st)\<rparr>"
  have s: "settled ?s" using assms(1) by (simp add: settled_inflight)
  have m: "armed ?s" using assms(3) by (simp add: armed_def)
  show ?thesis
    using Reject assms(3) armed_handleError[OF s m] by (simp add: onRejected_def)
next
  case (TimerFire h obs)
  from assms(1) have g: "gates st" and f: "fresh_handles st"
    by (simp_all add: settled_def coherent_def)
  show ?thesis
  proof (cases "find (\<lambda>t. fst t = h) (timers st)")
    case None
    then show ?thesis using TimerFire assms(3) by simp
  next
    case (Some t)
    show ?thesis
    proof (cases "snd (snd t)")
      case (TimeoutCb i)
      from fired_is_active[OF assms(1,2) Some TimeoutCb] obtain p where
        a: "activeRequests st = [(i, h, p)]" and p: "isProcessing st" by blast
      have "armed (finish (emit (Timeout i p) obs
          (st\<lparr>timers := filter (\<lambda>t. fst t \<noteq> h) (timers st), activeRequests := []\<rparr>))
          ''emit timeout'')"
        using p fresh_handles_filter[OF f] by (intro armed_finish) simp_all
      then show ?thesis
        using TimerFire Some TimeoutCb fired_finish[OF a, of obs] by (simp add: Let_def)
    next
      case DelayCb
      let ?s = "st\<lparr>timers := filter (\<lambda>t. fst t \<noteq> h) (timers st), isDelaying := False\<rparr>"
      have "armed ?s"
        unfolding armed_def
      proof
        fix a assume "a \<in> set (activeRequests ?s)"
        then have a: "a \<in> set (activeRequests st)" by simp
        with assms(3) have fa: "find (\<lambda>t. fst t = fst (snd a)) (timers st)
            = Some (fst (snd a), timeoutDuration st, TimeoutCb (fst a))"
          by (simp add: armed_def)
        have "fst (snd a) \<noteq> h"
        proof
          assume "fst (snd a) = h"
          with fa Some have "t = (h, timeoutDuration st, TimeoutCb (fst a))" by simp
          with DelayCb show False by simp
        qed
        then show "find (\<lambda>t. fst t = fst (snd a)) (timers ?s)
            = Some (fst (snd a), timeoutDuration ?s, TimeoutCb (fst a))"
          using fa by (simp add: find_filter_other)
      qed
      moreover have "gates ?s" using g by (simp add: gates_def)
      moreover have "fresh_handles ?s" using f by (simp add: fresh_handles_def)
      ultimately have "armed (tryProcessNext ?s)" by (rule armed_tryProcessNext)
      then show ?thesis
        using TimerFire Some DelayCb by (simp add: Let_def delayExpired_def)
    qed
  qed
qed

lemma armed_run:
  "settled st \<Longrightarrow> timers_match st \<Longrightarrow> armed st \<Longrightarrow> armed (run st evs)"
  unfolding run_def
  by (induction evs arbitrary: st) (simp_all add: step_settled timers_match_step armed_step)

lemma reachable_armed: "armed (run (init N td sd) evs)"
  by (rule armed_run[OF init_settled]) (simp_all add: timers_match_def armed_def init_def)

lemma timeoutDuration_run [simp]: "timeoutDuration (run (init N td sd) evs) = td"
  using config_run[of "init N td sd" evs] by (simp add: config_def init_def)

lemma quiet_step:
  assumes "settled st" "timers_match st" "map_of (activeRequests st) i = Some (h, p)"
    "quiet i h st ev"
  shows "activeRequests (step ev st) = activeRequests st \<and>
         emits (trace (step ev st)) = emits (trace st) \<and>
         sends (trace (step ev st)) = sends (trace st) @ (case ev of RunSend \<Rightarrow> take 1 (sendJobs st) | _ \<Rightarrow> [])"
proof -
  from assms(1) have g: "gates st" by (simp add: settled_def coherent_def)
  note single = active_single[OF g assms(3)]
  have other: "map_of (activeRequests st) j = None" if "j \<noteq> i" for j
    using single(1) that by simp
  show ?thesis
  proof (cases ev)
    case (AddRequest q)
    then show ?thesis using single(2) by (simp add: call_addRequest_gated)
  next
    case RunSend
    then show ?thesis by (simp split: list.splits)
  next
    case (Resolve k r obs)
    show ?thesis
    proof (cases "k < length (inflight st)")
      case False
      then show ?thesis using Resolve by simp
    next
      case True
      let ?s = "st\<lparr>inflight := take k (inflight st) @ drop (Suc k) (inflight st)\<rparr>"
      from True assms(4) Resolve have c: "fst (inflight st ! k) \<noteq> i" and rr: "response_id r \<noteq> Some i"
        by simp_all
      have e: "handleError (fst (inflight st ! k)) err obs ?s = ?s" for err
        by (rule handleError_None) (simp add: other[OF c])
      have "onResolved (inflight st ! k) r obs ?s = ?s"
      proof (cases r)
        case Nullish
        then show ?thesis by (simp add: onResolved_def handleResponse_Nullish e)
      next
        case (Value isobj rid ownid resp)
        have "(case rid of None \<Rightarrow> None | Some j \<Rightarrow> map_of (activeRequests ?s) j) = None"
          using rr Value other by (cases rid) auto
        then show ?thesis
          using Value by (simp add: onResolved_def handleResponse_None)
      qed
      then show ?thesis using Resolve True by simp
    qed
  next
    case (Reject k e obs)
    show ?thesis
    proof (cases "k < length (inflight st)")
      case False
      then show ?thesis using Reject by simp
    next
      case True
      let ?s = "st\<lparr>inflight := take k (inflight st) @ drop (Suc k) (inflight st)\<rparr>"
      from True assms(4) Reject have c: "fst (inflight st ! k) \<noteq> i" by simp
      have "handleError (fst (inflight st ! k)) (Reason e) obs ?s = ?s"
        by (rule handleError_None) (simp add: other[OF c])
      then show ?thesis using Reject True by (simp add: onRejected_def)
    qed
  next
    case (TimerFire h' obs)
    with assms(4) have ne: "h' \<noteq> h" by simp
    show ?thesis
    proof (cases "find (\<lambda>t. fst t = h') (timers st)")
      case None
      then show ?thesis using TimerFire by simp
    next
      case (Some t)
      show ?thesis
      proof (cases "snd (snd t)")
        case (TimeoutCb j)
        from fired_is_active[OF assms(1,2) Some TimeoutCb] single(1) ne show ?thesis by simp
      next
        case DelayCb
        have "tryProcessNext (st\<lparr>timers := filter (\<lambda>t. fst t \<noteq> h') (timers st), isDelaying := False\<rparr>)
            = st\<lparr>timers := filter (\<lambda>t. fst t \<noteq> h') (timers st), isDelaying := False\<rparr>"
          by (rule tryProcessNext_gated) (simp add: single(2))
        then show ?thesis
          using TimerFire Some DelayCb by (simp add: Let_def delayExpired_def)
      qed
    qed
  qed
qed

section \<open>The claims\<close>

text \<open>
  Claim C1. In every state reachable from a freshly constructed queue, by any sequence of
  steps of the event loop (enqueue, send, resolution by success, timeout or error, delay
  expiry) and also by any sequence of direct invocations of the methods (enqueue, admission
  attempt, the three resolutions, delay expiry), the active-entry table holds at most one
  entry and \<^verbatim>\<open>isProcessing\<close> and \<^verbatim>\<open>isDelaying\<close> are not both true, whatever \<^verbatim>\<open>maxId\<close> is;
  and, when \<^verbatim>\<open>maxId\<close> is a non-negative integer, the id counter lies in \<open>[0, maxId]\<close>.
\<close>

theorem reachable_invariants:
  "getActiveCount (run (init N td sd) evs) \<le> 1 \<and>
   \<not> (isProcessing (run (init N td sd) evs) \<and> isDelaying (run (init N td sd) evs)) \<and>
   (0 \<le> N \<longrightarrow>
      0 \<le> requestCounter (run (init N td sd) evs) \<and>
      requestCounter (run (init N td sd) evs) \<le> N) \<and>
   getActiveCount (fold invoke cs (init N td' sd')) \<le> 1 \<and>
   \<not> (isProcessing (fold invoke cs (init N td' sd')) \<and>
      isDelaying (fold invoke cs (init N td' sd'))) \<and>
   (0 \<le> N \<longrightarrow>
      0 \<le> requestCounter (fold invoke cs (init N td' sd')) \<and>
      requestCounter (fold invoke cs (init N td' sd')) \<le> N)"
proof -
  have a: "settled (fold invoke cs (init N td' sd'))"
    by (rule fold_invoke_settled[OF init_settled])
  have b: "settled (run (init N td sd) evs)"
    by (rule reachable_settled)
  from settled_invariants[OF a] settled_invariants[OF b] show ?thesis
    by simp
qed

text \<open>
  An instance: \<^verbatim>\<open>maxId = 2\<close> and a delay of 50 ms; two requests are enqueued, the first is
  sent and rejected, a third is enqueued during the pause: the pause is running, nothing
  is active, and the counter has wrapped to 0. And a sequence of direct invocations.
\<close>

theorem reachable_invariants_witness:
  "(0 :: int) \<le> 2 \<and>
   getActiveCount (run (init 2 100 (Some 50) :: (nat, nat, nat) state)
      [AddRequest 7, AddRequest 8, RunSend, Reject 0 3 [], AddRequest 9]) \<le> 1 \<and>
   \<not> (isProcessing (run (init 2 100 (Some 50) :: (nat, nat, nat) state)
          [AddRequest 7, AddRequest 8, RunSend, Reject 0 3 [], AddRequest 9]) \<and>
       isDelaying (run (init 2 100 (Some 50) :: (nat, nat, nat) state)
          [AddRequest 7, AddRequest 8, RunSend, Reject 0 3 [], AddRequest 9])) \<and>
   0 \<le> requestCounter (run (init 2 100 (Some 50) :: (nat, nat, nat) state)
      [AddRequest 7, AddRequest 8, RunSend, Reject 0 3 [], AddRequest 9]) \<and>
   requestCounter (run (init 2 100 (Some 50) :: (nat, nat, nat) state)
      [AddRequest 7, AddRequest 8, RunSend, Reject 0 3 [], AddRequest 9]) \<le> 2 \<and>
   isDelaying (run (init 2 100 (Some 50) :: (nat, nat, nat) state)
      [AddRequest 7, AddRequest 8, RunSend, Reject 0 3 [], AddRequest 9]) \<and>
   requestCounter (run (init 2 100 (Some 50) :: (nat, nat, nat) state)
      [AddRequest 7, AddRequest 8, RunSend, Reject 0 3 [], AddRequest 9]) = 0 \<and>
   getActiveCount (fold invoke [Enqueue 7, Enqueue 8, TimeOut 2 [], TimeOut 1 [], Admit]
      (init 2 100 None :: (nat, nat, nat) state)) = 1 \<and>
   requestCounter (fold invoke [Enqueue 7, Enqueue 8, TimeOut 2 [], TimeOut 1 [], Admit]
      (init 2 100 None :: (nat, nat, nat) state)) = 2"
proof -
  note w = reachable_invariants[of 2 100 "Some 50"
      "[AddRequest 7, AddRequest 8, RunSend, Reject 0 3 [], AddRequest 9] :: (nat, nat, nat) event list"
      "[Enqueue 7, Enqueue 8, TimeOut 2 [], TimeOut 1 [], Admit] :: (nat, nat, nat) call list"
      100 None]
  have h: "(0 :: int) \<le> 2" by simp
  note c1 = w[THEN conjunct1]
  note c2 = w[THEN conjunct2, THEN conjunct1]
  note c3 = w[THEN conjunct2, THEN conjunct2, THEN conjunct1, THEN mp, OF h]
  have v: "isDelaying (run (init 2 100 (Some 50) :: (nat, nat, nat) state)
        [AddRequest 7, AddRequest 8, RunSend, Reject 0 3 [], AddRequest 9]) \<and>
      requestCounter (run (init 2 100 (Some 50) :: (nat, nat, nat) state)
        [AddRequest 7, AddRequest 8, RunSend, Reject 0 3 [], AddRequest 9]) = 0 \<and>
      getActiveCount (fold invoke [Enqueue 7, Enqueue 8, TimeOut 2 [], TimeOut 1 [], Admit]
        (init 2 100 None :: (nat, nat, nat) state)) = 1 \<and>
      requestCounter (fold invoke [Enqueue 7, Enqueue 8, TimeOut 2 [], TimeOut 1 [], Admit]
        (init 2 100 None :: (nat, nat, nat) state)) = 2"
    by (simp add: run_def init_def call_addRequest_def addRequest_def generateId_def
          tryProcessNext_def setTimeout_def onRejected_def handleError_def handleTimeout_def
          clearTimeout_def emit_def console_log_def scheduleNextProcess_def getActiveCount_def)
  from h c1 c2 c3 v show ?thesis by blast
qed

text \<open>
  Claim C2. For every sequence of \<^verbatim>\<open>addRequest\<close> calls and every mix of success, timeout and
  error outcomes, \<^verbatim>\<open>sendFunction\<close> is invoked on the enqueued envelopes in exactly the order
  in which they were enqueued: the enqueued envelopes are those sent, followed by those
  scheduled for sending, followed by the pending queue. The history is serialized: the
  \<open>k\<close>-th invocation comes after at least \<open>k - 1\<close> resolutions, and the resolutions carry
  the ids of the enqueued requests in enqueue order, so an invocation never begins before
  the resolution of the request before it has completed.
\<close>

theorem fifo_serialized:
  "returns (trace (run (init N td sd) evs))
     = sends (trace (run (init N td sd) evs)) @ sendJobs (run (init N td sd) evs)
         @ queue (run (init N td sd) evs) \<and>
   prefix (sends (trace (run (init N td sd) evs))) (returns (trace (run (init N td sd) evs))) \<and>
   serialized (trace (run (init N td sd) evs)) \<and>
   prefix (map nid (emits (trace (run (init N td sd) evs))))
          (map (\<lambda>e. Some (fst e)) (returns (trace (run (init N td sd) evs))))"
proof -
  let ?st = "run (init N td sd) evs"
  have "settled ?st" by (rule reachable_settled)
  then have f: "fifo_hist ?st" by (simp add: settled_def coherent_def)
  then have r: "returns (trace ?st) = sends (trace ?st) @ sendJobs ?st @ queue ?st"
    and n: "map nid (emits (trace ?st)) @ map (\<lambda>a. Some (fst a)) (activeRequests ?st)
              = map (\<lambda>e. Some (fst e)) (sends (trace ?st)) @ map (\<lambda>e. Some (fst e)) (sendJobs ?st)"
    and s: "serialized (trace ?st)"
    by (simp_all add: fifo_hist_def)
  have p1: "prefix (sends (trace ?st)) (returns (trace ?st))"
    unfolding r by simp
  have "map (\<lambda>e. Some (fst e)) (returns (trace ?st))
      = map nid (emits (trace ?st))
          @ (map (\<lambda>a. Some (fst a)) (activeRequests ?st) @ map (\<lambda>e. Some (fst e)) (queue ?st))"
    unfolding r using n by simp
  then have p2: "prefix (map nid (emits (trace ?st))) (map (\<lambda>e. Some (fst e)) (returns (trace ?st)))"
    by (metis prefixI)
  from r p1 s p2 show ?thesis by blast
qed

text \<open>
  An instance with a success, a timeout and a rejection, and a listener that enqueues a
  fourth request from inside the \<open>success\<close> notification.
\<close>

theorem fifo_serialized_witness:
  "sends (trace (run (init 5 100 None :: (nat, nat, nat) state)
      [AddRequest 7, AddRequest 8, AddRequest 9, RunSend,
       Resolve 0 (Value True (Some 1) (Inr True) (Inr (Some 5))) [Reaction [10] False], RunSend,
       TimerFire 1 [], RunSend, Reject 1 3 [Reaction [] False], RunSend]))
     = [(1, 7), (2, 8), (3, 9), (4, 10)] \<and>
   returns (trace (run (init 5 100 None :: (nat, nat, nat) state)
      [AddRequest 7, AddRequest 8, AddRequest 9, RunSend,
       Resolve 0 (Value True (Some 1) (Inr True) (Inr (Some 5))) [Reaction [10] False], RunSend,
       TimerFire 1 [], RunSend, Reject 1 3 [Reaction [] False], RunSend]))
     = [(1, 7), (2, 8), (3, 9), (4, 10)] \<and>
   emits (trace (run (init 5 100 None :: (nat, nat, nat) state)
      [AddRequest 7, AddRequest 8, AddRequest 9, RunSend,
       Resolve 0 (Value True (Some 1) (Inr True) (Inr (Some 5))) [Reaction [10] False], RunSend,
       TimerFire 1 [], RunSend, Reject 1 3 [Reaction [] False], RunSend]))
     = [Success (Value True (Some 1) (Inr True) (Inr (Some 5))), Timeout 2 8, Error 3 9 (Reason 3)] \<and>
   serialized (trace (run (init 5 100 None :: (nat, nat, nat) state)
      [AddRequest 7, AddRequest 8, AddRequest 9, RunSend,
       Resolve 0 (Value True (Some 1) (Inr True) (Inr (Some 5))) [Reaction [10] False], RunSend,
       TimerFire 1 [], RunSend, Reject 1 3 [Reaction [] False], RunSend]))"
  using fifo_serialized[of 5 100 None
      "[AddRequest 7, AddRequest 8, AddRequest 9, RunSend,
        Resolve 0 (Value True (Some 1) (Inr True) (Inr (Some 5))) [Reaction [10] False], RunSend,
        TimerFire 1 [], RunSend, Reject 1 3 [Reaction [] False], RunSend] :: (nat, nat, nat) event list"]
  by (simp add: run_def init_def call_addRequest_def addRequest_def generateId_def
        tryProcessNext_def setTimeout_def onResolved_def onRejected_def handleResponse_def
        handleTimeout_def handleError_def clearTimeout_def emit_def console_log_def
        scheduleNextProcess_def serialized_def)

text \<open>
  Claim C3 says that a success outcome whose id matches the active entry but which lacks
  the \<^verbatim>\<open>id\<close> or \<^verbatim>\<open>response\<close> field raises an unrecoverable error that is propagated, and
  that no \<^verbatim>\<open>error\<close> notification is emitted for the request. The run below refutes it:
  request 1 is sent, the transport resolves with \<^verbatim>\<open>{ id: 1 }\<close> (no \<^verbatim>\<open>response\<close>) while one
  listener is subscribed to \<^verbatim>\<open>error\<close>; the event loop ends in an ordinary idle state and
  the history holds the \<^verbatim>\<open>error\<close> notification for request 1.
\<close>

theorem malformed_success_counterexample:
  "run (init 2 100 None :: (nat, nat, nat) state)
      [AddRequest 7, RunSend, Resolve 0 (Value True (Some 1) (Inr True) (Inr None)) [Reaction [] False]]
     = (init 2 100 None)
         \<lparr>requestCounter := 1, nextHandle := 1,
          trace := [Returned 1 7, Send (1, 7), Emit (Error 1 7 InvalidStructure)]\<rparr>"
  by (simp add: run_def init_def call_addRequest_def addRequest_def generateId_def
        tryProcessNext_def setTimeout_def onResolved_def handleResponse_def handleError_def
        clearTimeout_def emit_def scheduleNextProcess_def)

text \<open>
  Claim C3, amended. If the transport resolves with an outcome whose id is that of an
  active entry and the test of \<^verbatim>\<open>_handleResponse\<close> does not succeed, \<^verbatim>\<open>_handleResponse\<close>
  throws before it changes anything: \<^verbatim>\<open>Error('The response structure is invalid')\<close> when
  the test is false (the outcome is not an object, or \<^verbatim>\<open>hasOwnProperty\<close> denies \<^verbatim>\<open>id\<close> or
  \<^verbatim>\<open>response\<close>), and the exception of the \<^verbatim>\<open>hasOwnProperty\<close> call when the test itself
  throws (a TypeError for an outcome without a callable \<^verbatim>\<open>hasOwnProperty\<close>). The \<^verbatim>\<open>catch\<close>
  of the promise chain receives the exception and calls \<^verbatim>\<open>_handleError\<close> with it and the
  id of the request the chain belongs to, whichever request that is. When that id has no
  active entry, nothing happens. When it is the id of the outcome, the handler cancels the
  timer, removes the entry, emits exactly one notification, the \<^verbatim>\<open>error\<close> notification
  carrying that exception (and no \<^verbatim>\<open>success\<close> notification), clears \<^verbatim>\<open>isProcessing\<close> and
  schedules the next request; no transport call is made in the step.
\<close>

theorem malformed_success_routed:
  assumes "map_of (activeRequests st) i = Some (h, p)"
    and "shape_test (Value isobj (Some i) ownid resp) = Inr False \<and> x = InvalidStructure \<or>
         shape_test (Value isobj (Some i) ownid resp) = Inl x"
  shows "handleResponse (Value isobj (Some i) ownid resp) obs st = Inl x \<and>
         onResolved (j, q) (Value isobj (Some i) ownid resp) obs st = handleError j x obs st \<and>
         (map_of (activeRequests st) j = None \<longrightarrow>
            onResolved (j, q) (Value isobj (Some i) ownid resp) obs st = st) \<and>
         handleError i x obs st
           = finish (emit (Error i p x) obs
               (st\<lparr>timers := filter (\<lambda>t. fst t \<noteq> h) (timers st),
                   activeRequests := AList.delete i (activeRequests st)\<rparr>))
               ''emit error'' \<and>
         emits (trace (onResolved (i, q) (Value isobj (Some i) ownid resp) obs st))
           = emits (trace st) @ [Error i p x] \<and>
         sends (trace (onResolved (i, q) (Value isobj (Some i) ownid resp) obs st))
           = sends (trace st) \<and>
         shape_test (Value True rid (Inr False) resp') = (Inr False :: 'c failure + bool) \<and>
         shape_test (Value True rid (Inr True) (Inr None)) = (Inr False :: 'c failure + bool) \<and>
         shape_test (Value True rid (Inl y) resp') = Inl y \<and>
         shape_test (Value True rid (Inr True) (Inl y)) = Inl y"
proof -
  have a: "handleResponse (Value isobj (Some i) ownid resp) obs st = Inl x"
    using assms(2) handleResponse_malformed[OF assms(1), of isobj ownid resp obs]
      handleResponse_raises[OF assms(1), of isobj ownid resp x obs]
    by blast
  then have b: "onResolved (j, q) (Value isobj (Some i) ownid resp) obs st
      = handleError j x obs st" for j
    by (simp add: onResolved_def)
  have n: "map_of (activeRequests st) j = None \<longrightarrow>
      onResolved (j, q) (Value isobj (Some i) ownid resp) obs st = st"
    unfolding b by (simp add: handleError_None)
  have c: "handleError i x obs st
      = finish (emit (Error i p x) obs
          (st\<lparr>timers := filter (\<lambda>t. fst t \<noteq> h) (timers st),
              activeRequests := AList.delete i (activeRequests st)\<rparr>))
          ''emit error''"
    using handleError_Some[OF assms(1), of x obs] by simp
  have d: "emits (trace (onResolved (i, q) (Value isobj (Some i) ownid resp) obs st))
        = emits (trace st) @ [Error i p x]"
      "sends (trace (onResolved (i, q) (Value isobj (Some i) ownid resp) obs st)) = sends (trace st)"
    unfolding b using hist_handleError[OF assms(1), of x obs] by simp_all
  from a b[of j] n c d show ?thesis by simp
qed

text \<open>
  Instances, with request 1 active: the outcome \<^verbatim>\<open>{ id: 1 }\<close> arriving on the chain of
  request 1; an outcome without prototype, whose \<^verbatim>\<open>hasOwnProperty\<close> cannot be called,
  arriving on the same chain; and the outcome \<^verbatim>\<open>{ id: 1 }\<close> arriving on the chain of an
  earlier request 2.
\<close>

theorem malformed_success_routed_witness:
  "onResolved (1, 7) (Value True (Some 1) (Inr True) (Inr None)) [Reaction [] False]
      ((init 2 100 None :: (nat, nat, nat) state)
         \<lparr>activeRequests := [(1, 0, 7)], isProcessing := True, requestCounter := 1,
          timers := [(0, 100, TimeoutCb 1)], nextHandle := 1\<rparr>)
     = (init 2 100 None)\<lparr>requestCounter := 1, nextHandle := 1,
          trace := [Emit (Error 1 7 InvalidStructure)]\<rparr> \<and>
   onResolved (1, 7) (Value True (Some 1) (Inl TypeError) (Inr None)) [Reaction [] False]
      ((init 2 100 None :: (nat, nat, nat) state)
         \<lparr>activeRequests := [(1, 0, 7)], isProcessing := True, requestCounter := 1,
          timers := [(0, 100, TimeoutCb 1)], nextHandle := 1\<rparr>)
     = (init 2 100 None)\<lparr>requestCounter := 1, nextHandle := 1,
          trace := [Emit (Error 1 7 TypeError)]\<rparr> \<and>
   onResolved (2, 8) (Value True (Some 1) (Inr True) (Inr None)) [Reaction [] False]
      ((init 2 100 None :: (nat, nat, nat) state)
         \<lparr>activeRequests := [(1, 0, 7)], isProcessing := True, requestCounter := 1,
          timers := [(0, 100, TimeoutCb 1)], nextHandle := 1\<rparr>)
     = (init 2 100 None)
         \<lparr>activeRequests := [(1, 0, 7)], isProcessing := True, requestCounter := 1,
          timers := [(0, 100, TimeoutCb 1)], nextHandle := 1\<rparr>"
proof -
  let ?st = "(init 2 100 None :: (nat, nat, nat) state)
         \<lparr>activeRequests := [(1, 0, 7)], isProcessing := True, requestCounter := 1,
          timers := [(0, 100, TimeoutCb 1)], nextHandle := 1\<rparr>"
  let ?obs = "[Reaction [] False] :: nat reaction list"
  have h1: "map_of (activeRequests ?st) 1 = Some (0, 7)" by (simp add: init_def)
  have h2: "shape_test (Value True (Some 1) (Inr True) (Inr (None :: nat option)))
        = (Inr False :: nat failure + bool) \<and> (InvalidStructure :: nat failure) = InvalidStructure \<or>
      shape_test (Value True (Some 1) (Inr True) (Inr (None :: nat option))) = Inl (InvalidStructure :: nat failure)"
    by simp
  have h3: "shape_test (Value True (Some 1) (Inl TypeError) (Inr (None :: nat option)))
        = (Inr False :: nat failure + bool) \<and> (TypeError :: nat failure) = InvalidStructure \<or>
      shape_test (Value True (Some 1) (Inl TypeError) (Inr (None :: nat option))) = Inl (TypeError :: nat failure)"
    by simp
  have h4: "map_of (activeRequests ?st) 2 = None" by (simp add: init_def)
  note w1 = malformed_success_routed[OF h1 h2, where j = 1 and q = 7 and obs = ?obs
      and rid = "Some 1" and resp' = "Inr (None :: nat option)" and y = "TypeError :: nat failure"]
  note w2 = malformed_success_routed[OF h1 h3, where j = 1 and q = 7 and obs = ?obs
      and rid = "Some 1" and resp' = "Inr (None :: nat option)" and y = "TypeError :: nat failure"]
  note w3 = malformed_success_routed[OF h1 h2, where j = 2 and q = 8 and obs = ?obs
      and rid = "Some 1" and resp' = "Inr (None :: nat option)" and y = "TypeError :: nat failure"]
  have a: "onResolved (1, 7) (Value True (Some 1) (Inr True) (Inr None)) ?obs ?st
      = handleError 1 InvalidStructure ?obs ?st"
    by (rule w1[THEN conjunct2, THEN conjunct1])
  have b: "onResolved (1, 7) (Value True (Some 1) (Inl TypeError) (Inr None)) ?obs ?st
      = handleError 1 TypeError ?obs ?st"
    by (rule w2[THEN conjunct2, THEN conjunct1])
  have c: "onResolved (2, 8) (Value True (Some 1) (Inr True) (Inr None)) ?obs ?st = ?st"
    by (rule w3[THEN conjunct2, THEN conjunct2, THEN conjunct1, THEN mp, OF h4])
  show ?thesis
    unfolding a b c
    by (simp add: init_def handleError_def clearTimeout_def emit_def scheduleNextProcess_def)
qed

text \<open>
  Claim C4. With \<^verbatim>\<open>maxId = N\<close> (\<open>N\<close> a non-negative integer), the \<open>k\<close>-th call of
  \<^verbatim>\<open>addRequest\<close> on a queue (\<open>k\<close> counted from 1, calls made by listeners included, whatever
  else happens in between) returns \<open>k mod (N + 1)\<close>: always 0 when \<open>N = 0\<close>, and
  \<open>1, 2, \<dots>, N, 0, 1\<close> for the first \<open>N + 2\<close> calls when \<open>N > 0\<close>. A call returns the id it
  allocated: it increments the counter or wraps it to 0, appends the item made of that id
  and the payload to the pending queue, makes an admission attempt and returns, without
  invoking the transport.
\<close>

theorem id_sequence:
  assumes "0 \<le> N"
  shows "map fst (returns (trace (run (init N td sd) evs)))
           = map (\<lambda>k. int k mod (N + 1))
               [1 ..< Suc (length (returns (trace (run (init N td sd) evs))))] \<and>
         (N = 0 \<longrightarrow>
            map fst (returns (trace (run (init N td sd) evs)))
              = replicate (length (returns (trace (run (init N td sd) evs)))) 0) \<and>
         (0 < N \<and> length (returns (trace (run (init N td sd) evs))) = nat N + 2 \<longrightarrow>
            map fst (returns (trace (run (init N td sd) evs))) = map int [1 ..< Suc (nat N)] @ [0, 1]) \<and>
         fst (addRequest p st) = (if requestCounter st < maxId st then requestCounter st + 1 else 0) \<and>
         snd (addRequest p st)
           = tryProcessNext (st\<lparr>requestCounter := fst (addRequest p st),
                                 queue := queue st @ [(fst (addRequest p st), p)]\<rparr>) \<and>
         trace (snd (addRequest p st)) = trace st \<and>
         inflight (snd (addRequest p st)) = inflight st"
proof -
  let ?st = "run (init N td sd) evs"
  have "settled ?st" by (rule reachable_settled)
  then have "id_hist ?st" by (simp add: settled_def coherent_def)
  with assms have m: "map fst (returns (trace ?st))
      = map (\<lambda>k. int k mod (N + 1)) [1 ..< Suc (length (returns (trace ?st)))]"
    by (simp add: id_hist_def)
  have z: "N = 0 \<longrightarrow> map fst (returns (trace ?st)) = replicate (length (returns (trace ?st))) 0"
    using m ids_zero[of "[1 ..< Suc (length (returns (trace ?st)))]"] by auto
  have w: "0 < N \<and> length (returns (trace ?st)) = nat N + 2 \<longrightarrow>
      map fst (returns (trace ?st)) = map int [1 ..< Suc (nat N)] @ [0, 1]"
    using m ids_wrap[of N] by auto
  have a1: "fst (addRequest p st) = (if requestCounter st < maxId st then requestCounter st + 1 else 0)"
    by (simp add: addRequest_def generateId_def)
  have a2: "snd (addRequest p st)
      = tryProcessNext (st\<lparr>requestCounter := fst (addRequest p st),
                            queue := queue st @ [(fst (addRequest p st), p)]\<rparr>)"
    by (simp add: addRequest_def generateId_def)
  have a3: "trace (snd (addRequest p st)) = trace st"
    unfolding a2 by simp
  have a4: "inflight (snd (addRequest p st)) = inflight st"
    unfolding a2 by (cases "st\<lparr>requestCounter := fst (addRequest p st),
                            queue := queue st @ [(fst (addRequest p st), p)]\<rparr>" rule: tryProcessNext_cases)
       simp_all
  from m z w a1 a2 a3 a4 show ?thesis by blast
qed

text \<open>An instance: \<^verbatim>\<open>maxId = 2\<close> and four calls.\<close>

theorem id_sequence_witness:
  "(0 :: int) \<le> 2 \<and>
   map fst (returns (trace (run (init 2 100 None :: (nat, nat, nat) state)
      [AddRequest 7, AddRequest 8, RunSend, AddRequest 9, AddRequest 10]))) = [1, 2, 0, 1] \<and>
   fst (addRequest 7 (init 2 100 None :: (nat, nat, nat) state)) = 1 \<and>
   queue (snd (addRequest 8 (snd (addRequest 7 (init 2 100 None :: (nat, nat, nat) state)))))
     = [(2, 8)] \<and>
   sendJobs (snd (addRequest 8 (snd (addRequest 7 (init 2 100 None :: (nat, nat, nat) state)))))
     = [(1, 7)]"
  using id_sequence[of 2 100 None
      "[AddRequest 7, AddRequest 8, RunSend, AddRequest 9, AddRequest 10] :: (nat, nat, nat) event list"
      7 "init 2 100 None :: (nat, nat, nat) state"]
  by (simp add: run_def init_def call_addRequest_def addRequest_def generateId_def
        tryProcessNext_def setTimeout_def)

text \<open>
  Claim C5 says that every admitted request whose transport call never resolves gets
  exactly one \<^verbatim>\<open>timeout\<close> notification and no \<^verbatim>\<open>success\<close> or \<^verbatim>\<open>error\<close> notification. The
  run below refutes it, with \<^verbatim>\<open>maxId = 0\<close> (every id is 0): request A is sent and times
  out; request B is enqueued, admitted and sent; then the transport call of A resolves,
  late, with \<^verbatim>\<open>{ id: 0, response }\<close>. The outcome is matched by id alone, so it resolves B:
  B's timer is cancelled, a \<^verbatim>\<open>success\<close> notification with B's id is emitted, and no timer
  and no active entry remain, while B's own transport call is still in flight.
\<close>

theorem stale_outcome_counterexample:
  "run (init 0 100 None :: (nat, nat, nat) state)
      [AddRequest 10, RunSend, TimerFire 0 [], AddRequest 11, RunSend,
       Resolve 0 (Value True (Some 0) (Inr True) (Inr (Some 5))) []]
     = (init 0 100 None)
         \<lparr>nextHandle := 2, inflight := [(0, 11)],
          trace := [Returned 0 10, Send (0, 10), Emit (Timeout 0 10),
                    Returned 0 11, Send (0, 11),
                    Emit (Success (Value True (Some 0) (Inr True) (Inr (Some 5))))]\<rparr>"
  by (simp add: run_def init_def call_addRequest_def addRequest_def generateId_def
        tryProcessNext_def setTimeout_def onResolved_def handleResponse_def handleTimeout_def
        clearTimeout_def emit_def scheduleNextProcess_def)

text \<open>
  Claim C5, amended. In every reachable state, the timer of the active entry is armed, with
  the delay \<^verbatim>\<open>timeoutDuration\<close> and the timeout callback for the entry's id. The entry stays
  active, and nothing is emitted, across every step of the event loop other than the firing
  of that timer, an outcome of a transport call that was made for the same id, or an
  outcome that carries the same id (the state after the step is reachable again, so this
  holds along any number of such steps). When the timer fires, the timer is gone, the entry
  is removed and exactly one notification is emitted in that step, the \<^verbatim>\<open>timeout\<close>
  notification with the request's id and payload; no transport call is made in it. Any
  transport resolution or rejection, and any timer firing, for an id with no active entry
  is a silent no-op: the state, history included, is unchanged.
\<close>

theorem timeout_resolution:
  assumes "st = run (init N td sd) evs"
    and "map_of (activeRequests st) i = Some (h, p)"
    and "map_of (activeRequests s) j = None"
  shows "find (\<lambda>t. fst t = h) (timers st) = Some (h, td, TimeoutCb i) \<and>
         (quiet i h st ev \<longrightarrow>
            map_of (activeRequests (step ev st)) i = Some (h, p) \<and>
            emits (trace (step ev st)) = emits (trace st)) \<and>
         step (TimerFire h obs) st
           = finish (emit (Timeout i p) obs
               (st\<lparr>timers := filter (\<lambda>t. fst t \<noteq> h) (timers st), activeRequests := []\<rparr>))
               ''emit timeout'' \<and>
         emits (trace (step (TimerFire h obs) st)) = emits (trace st) @ [Timeout i p] \<and>
         sends (trace (step (TimerFire h obs) st)) = sends (trace st) \<and>
         handleResponse (Value isobj (Some j) ownid resp) obs' s = Inr s \<and>
         onResolved (j, q) (Value isobj (Some j) ownid resp) obs' s = s \<and>
         handleError j err obs' s = s \<and>
         onRejected (j, q) e obs' s = s \<and>
         handleTimeout j obs' s = s"
proof -
  have se: "settled st" and tm: "timers_match st" and ar: "armed st"
    unfolding assms(1) by (rule reachable_settled reachable_timers_match reachable_armed)+
  from se have g: "gates st" by (simp add: settled_def coherent_def)
  note single = active_single[OF g assms(2)]
  have t: "find (\<lambda>t. fst t = h) (timers st) = Some (h, td, TimeoutCb i)"
    using ar single(1) by (simp add: armed_def assms(1))
  have q: "quiet i h st ev \<longrightarrow>
      map_of (activeRequests (step ev st)) i = Some (h, p) \<and>
      emits (trace (step ev st)) = emits (trace st)"
    using quiet_step[OF se tm assms(2), of ev] assms(2) by simp
  have f: "step (TimerFire h obs) st
      = finish (emit (Timeout i p) obs
          (st\<lparr>timers := filter (\<lambda>t. fst t \<noteq> h) (timers st), activeRequests := []\<rparr>))
          ''emit timeout''"
    using t fired_finish[OF single(1), of obs] by (simp add: Let_def)
  have h1: "emits (trace (step (TimerFire h obs) st)) = emits (trace st) @ [Timeout i p]"
    and h2: "sends (trace (step (TimerFire h obs) st)) = sends (trace st)"
    unfolding f by simp_all
  have r: "handleResponse (Value isobj (Some j) ownid resp) obs' s = Inr s"
    using assms(3) by (simp add: handleResponse_None)
  then have r': "onResolved (j, q) (Value isobj (Some j) ownid resp) obs' s = s"
    by (simp add: onResolved_def)
  have e: "handleError j err obs' s = s" for err
    using assms(3) by (rule handleError_None)
  then have e': "onRejected (j, q) e obs' s = s"
    by (simp add: onRejected_def)
  have o: "handleTimeout j obs' s = s"
    using assms(3) by (rule handleTimeout_None)
  from t q f h1 h2 r r' e e' o show ?thesis by simp
qed

text \<open>
  An instance: request 1 has been sent; an enqueue leaves it active; its timer fires;
  the transport then resolves request 1, with no effect.
\<close>

theorem timeout_resolution_witness:
  "find (\<lambda>t. fst t = 0) (timers (run (init 2 100 None :: (nat, nat, nat) state) [AddRequest 7, RunSend]))
     = Some (0, 100, TimeoutCb 1) \<and>
   map_of (activeRequests (step (AddRequest 8)
      (run (init 2 100 None :: (nat, nat, nat) state) [AddRequest 7, RunSend]))) 1 = Some (0, 7) \<and>
   emits (trace (step (TimerFire 0 [])
      (run (init 2 100 None :: (nat, nat, nat) state) [AddRequest 7, RunSend]))) = [Timeout 1 7] \<and>
   onResolved (1, 7) (Value True (Some 1) (Inr True) (Inr (Some 5))) []
      (run (init 2 100 None :: (nat, nat, nat) state) [AddRequest 7, RunSend, TimerFire 0 []])
     = run (init 2 100 None) [AddRequest 7, RunSend, TimerFire 0 []]"
proof -
  let ?st = "run (init 2 100 None :: (nat, nat, nat) state) [AddRequest 7, RunSend]"
  let ?s = "run (init 2 100 None :: (nat, nat, nat) state) [AddRequest 7, RunSend, TimerFire 0 []]"
  note defs = run_def init_def call_addRequest_def addRequest_def generateId_def
    tryProcessNext_def setTimeout_def handleTimeout_def emit_def scheduleNextProcess_def
  have h2: "map_of (activeRequests ?st) 1 = Some (0, 7)" by (simp add: defs)
  have h3: "map_of (activeRequests ?s) 1 = None" by (simp add: defs)
  have q: "quiet 1 0 ?st (AddRequest 8)" by simp
  have e0: "emits (trace ?st) = []" by (simp add: defs)
  note w = timeout_resolution[OF refl h2 h3, of "AddRequest 8" "[]" True "Inr True" "Inr (Some 5)" "[]" 7
      "Reason 0" 0]
  note c1 = w[THEN conjunct1]
  note c2 = w[THEN conjunct2, THEN conjunct1, THEN mp, OF q, THEN conjunct1]
  note c4 = w[THEN conjunct2, THEN conjunct2, THEN conjunct2, THEN conjunct1]
  note c7 = w[THEN conjunct2, THEN conjunct2, THEN conjunct2, THEN conjunct2, THEN conjunct2,
      THEN conjunct2, THEN conjunct1]
  from c4 e0 have c4': "emits (trace (step (TimerFire 0 []) ?st)) = [Timeout 1 7]"
    by (simp only: append_Nil)
  from c1 c2 c4' c7 show ?thesis by (intro conjI)
qed

text \<open>
  Claim C6. An admission attempt (\<^verbatim>\<open>_tryProcessNext\<close>) leaves the state unchanged when
  \<^verbatim>\<open>isProcessing\<close> or \<^verbatim>\<open>isDelaying\<close> is true or the pending queue is empty. Otherwise it sets
  \<^verbatim>\<open>isProcessing\<close>, removes exactly the head of the pending queue, arms one timer of
  \<^verbatim>\<open>timeoutDuration\<close> whose callback is the timeout handler for the head's id, records the
  active entry for that id with that timer and the payload, and schedules the transport
  call for the head without making it: the history and the transport calls in flight are
  as before.
\<close>

theorem admission_attempt:
  "(isProcessing st \<or> isDelaying st \<or> queue st = [] \<longrightarrow> tryProcessNext st = st) \<and>
   (\<not> isProcessing st \<and> \<not> isDelaying st \<and> queue st = (i, p) # rest \<longrightarrow>
      isProcessing (tryProcessNext st) \<and>
      queue (tryProcessNext st) = rest \<and>
      timers (tryProcessNext st) = timers st @ [(nextHandle st, timeoutDuration st, TimeoutCb i)] \<and>
      activeRequests (tryProcessNext st) = AList.update i (nextHandle st, p) (activeRequests st) \<and>
      map_of (activeRequests (tryProcessNext st)) i = Some (nextHandle st, p) \<and>
      sendJobs (tryProcessNext st) = sendJobs st @ [(i, p)] \<and>
      inflight (tryProcessNext st) = inflight st \<and>
      trace (tryProcessNext st) = trace st \<and>
      isDelaying (tryProcessNext st) = isDelaying st \<and>
      requestCounter (tryProcessNext st) = requestCounter st)"
proof (intro conjI impI)
  assume "isProcessing st \<or> isDelaying st \<or> queue st = []"
  then show "tryProcessNext st = st" by (rule tryProcessNext_gated)
next
  assume a: "\<not> isProcessing st \<and> \<not> isDelaying st \<and> queue st = (i, p) # rest"
  note eq = tryProcessNext_open[of st i p rest]
  from a eq show "isProcessing (tryProcessNext st)" by simp
  from a eq show "queue (tryProcessNext st) = rest" by simp
  from a eq show "timers (tryProcessNext st)
      = timers st @ [(nextHandle st, timeoutDuration st, TimeoutCb i)]" by simp
  from a eq show "activeRequests (tryProcessNext st)
      = AList.update i (nextHandle st, p) (activeRequests st)" by simp
  from a eq show "map_of (activeRequests (tryProcessNext st)) i = Some (nextHandle st, p)"
    by (simp add: update_conv')
  from a eq show "sendJobs (tryProcessNext st) = sendJobs st @ [(i, p)]" by simp
  from a eq show "inflight (tryProcessNext st) = inflight st" by simp
  show "trace (tryProcessNext st) = trace st" by simp
  from a eq show "isDelaying (tryProcessNext st) = isDelaying st" by simp
  from a eq show "requestCounter (tryProcessNext st) = requestCounter st" by simp
qed

text \<open>An instance of each case: a gated attempt, and the admission of the head of two.\<close>

theorem admission_attempt_witness:
  "tryProcessNext ((init 2 100 None :: (nat, nat, nat) state)\<lparr>queue := [(1, 7)], isDelaying := True\<rparr>)
     = (init 2 100 None)\<lparr>queue := [(1, 7)], isDelaying := True\<rparr> \<and>
   queue (tryProcessNext ((init 2 100 None :: (nat, nat, nat) state)\<lparr>queue := [(1, 7), (2, 8)]\<rparr>))
     = [(2, 8)] \<and>
   timers (tryProcessNext ((init 2 100 None :: (nat, nat, nat) state)\<lparr>queue := [(1, 7), (2, 8)]\<rparr>))
     = [(0, 100, TimeoutCb 1)] \<and>
   activeRequests (tryProcessNext ((init 2 100 None :: (nat, nat, nat) state)\<lparr>queue := [(1, 7), (2, 8)]\<rparr>))
     = [(1, 0, 7)] \<and>
   sendJobs (tryProcessNext ((init 2 100 None :: (nat, nat, nat) state)\<lparr>queue := [(1, 7), (2, 8)]\<rparr>))
     = [(1, 7)]"
  using admission_attempt[of "(init 2 100 None :: (nat, nat, nat) state)\<lparr>queue := [(1, 7), (2, 8)]\<rparr>" 1 7 "[(2, 8)]"]
    admission_attempt[of "(init 2 100 None :: (nat, nat, nat) state)\<lparr>queue := [(1, 7)], isDelaying := True\<rparr>"]
  by (simp add: init_def)

text \<open>
  Claim C7. Resume scheduling (\<^verbatim>\<open>_scheduleNextProcess\<close>): with \<^verbatim>\<open>sendingDelay > 0\<close> and a
  non-empty pending queue it sets \<^verbatim>\<open>isDelaying\<close> and arms one timer of \<^verbatim>\<open>sendingDelay\<close> with the
  delay callback, nothing else; admission attempts are then without effect, and when that
  timer fires it is gone, \<^verbatim>\<open>isDelaying\<close> is cleared and the admission attempt is made. With
  \<^verbatim>\<open>sendingDelay\<close> absent or not positive, or with an empty queue, its result is that of the
  admission attempt made at once (on an empty queue both do nothing).
\<close>

theorem resume_scheduling:
  "(sendingDelay st = Some d \<and> 0 < d \<and> queue st \<noteq> [] \<longrightarrow>
      scheduleNextProcess st
        = st\<lparr>isDelaying := True, timers := timers st @ [(nextHandle st, d, DelayCb)],
             nextHandle := Suc (nextHandle st)\<rparr> \<and>
      tryProcessNext (scheduleNextProcess st) = scheduleNextProcess st \<and>
      (fresh_handles st \<longrightarrow>
         step (TimerFire (nextHandle st) obs) (scheduleNextProcess st)
           = tryProcessNext (st\<lparr>nextHandle := Suc (nextHandle st), isDelaying := False\<rparr>))) \<and>
   (sendingDelay st = None \<or> (\<exists>d'. sendingDelay st = Some d' \<and> d' \<le> 0) \<or> queue st = [] \<longrightarrow>
      scheduleNextProcess st = tryProcessNext st)"
proof (intro conjI impI)
  assume a: "sendingDelay st = Some d \<and> 0 < d \<and> queue st \<noteq> []"
  then show eq: "scheduleNextProcess st
      = st\<lparr>isDelaying := True, timers := timers st @ [(nextHandle st, d, DelayCb)],
           nextHandle := Suc (nextHandle st)\<rparr>"
    by (simp add: scheduleNextProcess_def setTimeout_def)
  show "tryProcessNext (scheduleNextProcess st) = scheduleNextProcess st"
    unfolding eq by (rule tryProcessNext_gated) simp
  assume f: "fresh_handles st"
  show "step (TimerFire (nextHandle st) obs) (scheduleNextProcess st)
      = tryProcessNext (st\<lparr>nextHandle := Suc (nextHandle st), isDelaying := False\<rparr>)"
    unfolding eq using find_fresh[OF f, of d DelayCb] filter_fresh[OF f]
    by (simp add: delayExpired_def)
next
  assume "sendingDelay st = None \<or> (\<exists>d'. sendingDelay st = Some d' \<and> d' \<le> 0) \<or> queue st = []"
  then show "scheduleNextProcess st = tryProcessNext st"
    by (auto simp add: scheduleNextProcess_def tryProcessNext_gated)
qed

text \<open>An instance with a delay of 50 ms and one pending request, and one with no delay.\<close>

theorem resume_scheduling_witness:
  "scheduleNextProcess ((init 2 100 (Some 50) :: (nat, nat, nat) state)\<lparr>queue := [(1, 7)]\<rparr>)
     = (init 2 100 (Some 50))\<lparr>queue := [(1, 7)], isDelaying := True,
          timers := [(0, 50, DelayCb)], nextHandle := 1\<rparr> \<and>
   activeRequests (step (TimerFire 0 [])
      (scheduleNextProcess ((init 2 100 (Some 50) :: (nat, nat, nat) state)\<lparr>queue := [(1, 7)]\<rparr>)))
     = [(1, 1, 7)] \<and>
   isDelaying (step (TimerFire 0 [])
      (scheduleNextProcess ((init 2 100 (Some 50) :: (nat, nat, nat) state)\<lparr>queue := [(1, 7)]\<rparr>)))
     = False \<and>
   activeRequests (scheduleNextProcess ((init 2 100 None :: (nat, nat, nat) state)\<lparr>queue := [(1, 7)]\<rparr>))
     = [(1, 0, 7)]"
proof -
  let ?st1 = "(init 2 100 (Some 50) :: (nat, nat, nat) state)\<lparr>queue := [(1, 7)]\<rparr>"
  let ?st2 = "(init 2 100 None :: (nat, nat, nat) state)\<lparr>queue := [(1, 7)]\<rparr>"
  have h1: "sendingDelay ?st1 = Some 50 \<and> (0 :: int) < 50 \<and> queue ?st1 \<noteq> []"
    by (simp add: init_def)
  have h2: "fresh_handles ?st1" by (simp add: init_def fresh_handles_def)
  have h3: "sendingDelay ?st2 = None \<or> (\<exists>d'. sendingDelay ?st2 = Some d' \<and> d' \<le> 0) \<or> queue ?st2 = []"
    by (simp add: init_def)
  note a = resume_scheduling[of ?st1 50 "[]", THEN conjunct1, THEN mp, OF h1]
  note b = resume_scheduling[of ?st2 50 "[]", THEN conjunct2, THEN mp, OF h3]
  have w1: "scheduleNextProcess ?st1
      = (init 2 100 (Some 50))\<lparr>queue := [(1, 7)], isDelaying := True,
           timers := [(0, 50, DelayCb)], nextHandle := 1\<rparr>"
    using a[THEN conjunct1] by (simp add: init_def)
  have w2: "step (TimerFire 0 []) (scheduleNextProcess ?st1)
      = tryProcessNext (?st1\<lparr>nextHandle := 1, isDelaying := False\<rparr>)"
    using a[THEN conjunct2, THEN conjunct2, THEN mp, OF h2] by (simp add: init_def)
  show ?thesis
    unfolding w2 b unfolding w1
    by (simp add: init_def tryProcessNext_def setTimeout_def)
qed

text \<open>
  Claim C8. When a listener throws during a \<^verbatim>\<open>success\<close>, \<^verbatim>\<open>timeout\<close> or \<^verbatim>\<open>error\<close>
  notification, the exception is caught and logged and does not leave the handler: the
  handler returns a state (for \<^verbatim>\<open>_handleResponse\<close>, it does not throw), the last entry of
  the history is the log of the catch block, the active entry is removed, \<^verbatim>\<open>isProcessing\<close>
  is cleared and \<^verbatim>\<open>_scheduleNextProcess\<close> is called. The handler runs on a state with the
  entry active and \<^verbatim>\<open>isProcessing\<close> set, as it is whenever an entry is active in a reachable
  state.
\<close>

theorem observer_failure_contained:
  assumes "map_of (activeRequests st) i = Some (h, p)" "isProcessing st" "list_ex throws obs"
  shows
    "handleTimeout i obs st
       = scheduleNextProcess
           ((console_log ''emit timeout''
               (fst (emit (Timeout i p) obs
                  (st\<lparr>activeRequests := AList.delete i (activeRequests st)\<rparr>))))
            \<lparr>isProcessing := False\<rparr>) \<and>
     activeRequests (fst (emit (Timeout i p) obs
         (st\<lparr>activeRequests := AList.delete i (activeRequests st)\<rparr>)))
       = AList.delete i (activeRequests st) \<and>
     handleError i err obs st
       = scheduleNextProcess
           ((console_log ''emit error''
               (fst (emit (Error i p err) obs
                  (st\<lparr>timers := filter (\<lambda>t. fst t \<noteq> h) (timers st),
                      activeRequests := AList.delete i (activeRequests st)\<rparr>))))
            \<lparr>isProcessing := False\<rparr>) \<and>
     activeRequests (fst (emit (Error i p err) obs
         (st\<lparr>timers := filter (\<lambda>t. fst t \<noteq> h) (timers st),
             activeRequests := AList.delete i (activeRequests st)\<rparr>)))
       = AList.delete i (activeRequests st) \<and>
     handleResponse (Value True (Some i) (Inr True) (Inr (Some r))) obs st
       = Inr (scheduleNextProcess
           ((console_log ''emit success''
               (fst (emit (Success (Value True (Some i) (Inr True) (Inr (Some r)))) obs
                  (st\<lparr>timers := filter (\<lambda>t. fst t \<noteq> h) (timers st),
                      activeRequests := AList.delete i (activeRequests st)\<rparr>))))
            \<lparr>isProcessing := False\<rparr>)) \<and>
     activeRequests (fst (emit (Success (Value True (Some i) (Inr True) (Inr (Some r)))) obs
         (st\<lparr>timers := filter (\<lambda>t. fst t \<noteq> h) (timers st),
             activeRequests := AList.delete i (activeRequests st)\<rparr>)))
       = AList.delete i (activeRequests st) \<and>
     map_of (AList.delete i (activeRequests st)) i = None \<and>
     last (trace (handleTimeout i obs st)) = Log ''emit timeout'' \<and>
     last (trace (handleError i err obs st)) = Log ''emit error'' \<and>
     (\<exists>st'. handleResponse (Value True (Some i) (Inr True) (Inr (Some r))) obs st = Inr st' \<and>
            last (trace st') = Log ''emit success'')"
proof -
  from assms(3) have ne: "obs \<noteq> []" by auto
  have thr: "snd (emit n obs s) = True" for n and s :: "('a, 'b, 'c) state"
    using assms(3) ne by (simp add: emit_throws)
  have keep: "isProcessing s \<Longrightarrow> activeRequests (fst (emit n obs s)) = activeRequests s"
    for n and s :: "('a, 'b, 'c) state"
    by (simp add: emit_gated)
  have t: "handleTimeout i obs st
       = scheduleNextProcess
           ((console_log ''emit timeout''
               (fst (emit (Timeout i p) obs
                  (st\<lparr>activeRequests := AList.delete i (activeRequests st)\<rparr>))))
            \<lparr>isProcessing := False\<rparr>)"
    using assms(1) by (simp add: handleTimeout_Some finish_def thr)
  have e: "handleError i err obs st
       = scheduleNextProcess
           ((console_log ''emit error''
               (fst (emit (Error i p err) obs
                  (st\<lparr>timers := filter (\<lambda>t. fst t \<noteq> h) (timers st),
                      activeRequests := AList.delete i (activeRequests st)\<rparr>))))
            \<lparr>isProcessing := False\<rparr>)"
    using assms(1) by (simp add: handleError_Some finish_def thr)
  have s: "handleResponse (Value True (Some i) (Inr True) (Inr (Some r))) obs st
       = Inr (scheduleNextProcess
           ((console_log ''emit success''
               (fst (emit (Success (Value True (Some i) (Inr True) (Inr (Some r)))) obs
                  (st\<lparr>timers := filter (\<lambda>t. fst t \<noteq> h) (timers st),
                      activeRequests := AList.delete i (activeRequests st)\<rparr>))))
            \<lparr>isProcessing := False\<rparr>))"
    using assms(1) by (simp add: handleResponse_Some finish_def thr)
  have k1: "activeRequests (fst (emit (Timeout i p) obs
         (st\<lparr>activeRequests := AList.delete i (activeRequests st)\<rparr>)))
       = AList.delete i (activeRequests st)"
    using assms(2) by (simp add: keep)
  have k2: "activeRequests (fst (emit n obs
         (st\<lparr>timers := filter (\<lambda>t. fst t \<noteq> h) (timers st),
             activeRequests := AList.delete i (activeRequests st)\<rparr>)))
       = AList.delete i (activeRequests st)" for n
    using assms(2) by (simp add: keep)
  have g: "map_of (AList.delete i (activeRequests st)) i = None"
    by (simp add: delete_notin_dom map_of_eq_None_iff)
  have l1: "last (trace (handleTimeout i obs st)) = Log ''emit timeout''"
    unfolding t by (simp add: console_log_def)
  have l2: "last (trace (handleError i err obs st)) = Log ''emit error''"
    unfolding e by (simp add: console_log_def)
  have l3: "\<exists>st'. handleResponse (Value True (Some i) (Inr True) (Inr (Some r))) obs st = Inr st' \<and>
            last (trace st') = Log ''emit success''"
    unfolding s by (simp add: console_log_def)
  from t e s k1 k2 g l1 l2 l3 show ?thesis by simp
qed

text \<open>
  An instance: request 1 is active, request 2 is pending; the \<^verbatim>\<open>timeout\<close> listener enqueues
  a payload and then throws. Request 2 has been admitted afterwards.
\<close>

theorem observer_failure_contained_witness:
  "handleTimeout 1 [Reaction [9] True]
      ((init 2 100 None :: (nat, nat, nat) state)
         \<lparr>queue := [(2, 8)], activeRequests := [(1, 0, 7)], isProcessing := True,
          requestCounter := 2, timers := [], nextHandle := 1\<rparr>)
     = (init 2 100 None)
         \<lparr>queue := [(0, 9)], activeRequests := [(2, 1, 8)], isProcessing := True,
          requestCounter := 0, timers := [(1, 100, TimeoutCb 2)], nextHandle := 2,
          sendJobs := [(2, 8)],
          trace := [Emit (Timeout 1 7), Returned 0 9, Log ''emit timeout'']\<rparr>"
proof -
  let ?st = "(init 2 100 None :: (nat, nat, nat) state)
         \<lparr>queue := [(2, 8)], activeRequests := [(1, 0, 7)], isProcessing := True,
          requestCounter := 2, timers := [], nextHandle := 1\<rparr>"
  have h1: "map_of (activeRequests ?st) 1 = Some (0, 7)" by (simp add: init_def)
  have h2: "isProcessing ?st" by (simp add: init_def)
  have h3: "list_ex throws [Reaction [9 :: nat] True]" by simp
  note w = observer_failure_contained[OF h1 h2 h3, THEN conjunct1]
  show ?thesis
    unfolding w
    by (simp add: init_def emit_def call_addRequest_def addRequest_def generateId_def
          console_log_def scheduleNextProcess_def tryProcessNext_def setTimeout_def)
qed

text \<open>
  Claim C9. When \<^verbatim>\<open>sendingDelay\<close> is absent or 0, the class of src/request-queue.js and the
  copy embedded in src/unnamed/part_000 behave alike: after every sequence of steps of the
  event loop, started from freshly constructed queues with the same \<^verbatim>\<open>maxId\<close> and
  \<^verbatim>\<open>timeoutDuration\<close>, the copy is in the state the class is in (its \<^verbatim>\<open>isDelaying\<close> and
  \<^verbatim>\<open>sendingDelay\<close> apart), so both have produced the same history of returned ids,
  transport invocations, notifications and logs, and \<^verbatim>\<open>getQueueSize\<close> and
  \<^verbatim>\<open>getActiveCount\<close> agree.
\<close>

theorem duplicate_equivalent:
  assumes "sd = None \<or> sd = Some 0"
  shows "proj (run (init N td sd) evs) = run_dup (init_dup N td) evs \<and>
         trace (run (init N td sd) evs) = trace_dup (run_dup (init_dup N td) evs) \<and>
         getQueueSize (run (init N td sd) evs) = getQueueSize_dup (run_dup (init_dup N td) evs) \<and>
         getActiveCount (run (init N td sd) evs) = getActiveCount_dup (run_dup (init_dup N td) evs)"
proof -
  have "plain (init N td sd)" using assms by (auto simp: plain_def init_def)
  from proj_run[OF this, of evs]
  have p: "proj (run (init N td sd) evs) = run_dup (init_dup N td) evs"
    by (simp add: proj_init)
  have "trace_dup (proj (run (init N td sd) evs)) = trace (run (init N td sd) evs)"
       "getQueueSize_dup (proj (run (init N td sd) evs)) = getQueueSize (run (init N td sd) evs)"
       "getActiveCount_dup (proj (run (init N td sd) evs)) = getActiveCount (run (init N td sd) evs)"
    by (simp_all add: getQueueSize_def getQueueSize_dup_def getActiveCount_def getActiveCount_dup_def)
  with p show ?thesis by simp
qed

text \<open>
  An instance with \<^verbatim>\<open>sendingDelay = 0\<close>: two requests, the first succeeds while a listener
  enqueues a third, the second times out.
\<close>

theorem duplicate_equivalent_witness:
  "trace (run (init 2 100 (Some 0) :: (nat, nat, nat) state)
      [AddRequest 7, AddRequest 8, RunSend,
       Resolve 0 (Value True (Some 1) (Inr True) (Inr (Some 5))) [Reaction [9] False], RunSend,
       TimerFire 1 [Reaction [] True]])
   = [Returned 1 7, Returned 2 8, Send (1, 7), Emit (Success (Value True (Some 1) (Inr True) (Inr (Some 5)))),
      Returned 0 9, Send (2, 8), Emit (Timeout 2 8), Log ''emit timeout''] \<and>
   trace_dup (run_dup (init_dup 2 100 :: (nat, nat, nat) state_dup)
      [AddRequest 7, AddRequest 8, RunSend,
       Resolve 0 (Value True (Some 1) (Inr True) (Inr (Some 5))) [Reaction [9] False], RunSend,
       TimerFire 1 [Reaction [] True]])
   = [Returned 1 7, Returned 2 8, Send (1, 7), Emit (Success (Value True (Some 1) (Inr True) (Inr (Some 5)))),
      Returned 0 9, Send (2, 8), Emit (Timeout 2 8), Log ''emit timeout''] \<and>
   getQueueSize_dup (run_dup (init_dup 2 100 :: (nat, nat, nat) state_dup)
      [AddRequest 7, AddRequest 8, RunSend,
       Resolve 0 (Value True (Some 1) (Inr True) (Inr (Some 5))) [Reaction [9] False], RunSend,
       TimerFire 1 [Reaction [] True]]) = 0 \<and>
   getActiveCount_dup (run_dup (init_dup 2 100 :: (nat, nat, nat) state_dup)
      [AddRequest 7, AddRequest 8, RunSend,
       Resolve 0 (Value True (Some 1) (Inr True) (Inr (Some 5))) [Reaction [9] False], RunSend,
       TimerFire 1 [Reaction [] True]]) = 1"
  using duplicate_equivalent[of "Some 0" 2 100
      "[AddRequest 7, AddRequest 8, RunSend,
        Resolve 0 (Value True (Some 1) (Inr True) (Inr (Some 5))) [Reaction [9] False], RunSend,
        TimerFire 1 [Reaction [] True]] :: (nat, nat, nat) event list"]
  by (simp add: run_def init_def call_addRequest_def addRequest_def generateId_def
        tryProcessNext_def setTimeout_def onResolved_def handleResponse_def handleTimeout_def
        clearTimeout_def emit_def console_log_def scheduleNextProcess_def
        getActiveCount_def getQueueSize_def)

text \<open>
  Claim C10. An \<^verbatim>\<open>error\<close> notification emitted while no listener is subscribed to
  \<^verbatim>\<open>'error'\<close> does not crash the dispatcher: \<^verbatim>\<open>emit\<close> throws, the \<^verbatim>\<open>try\<close>/\<^verbatim>\<open>catch\<close> of
  \<^verbatim>\<open>_handleError\<close> catches and logs it, and the handler still cancels the timer, removes the
  active entry, clears \<^verbatim>\<open>isProcessing\<close> and schedules the next pending request.
\<close>

theorem unhandled_error_event:
  assumes "map_of (activeRequests st) i = Some (h, p)"
  shows "emit (Error i p err) [] s = (s\<lparr>trace := trace s @ [Emit (Error i p err)]\<rparr>, True) \<and>
         handleError i err [] st
           = scheduleNextProcess
               (st\<lparr>timers := filter (\<lambda>t. fst t \<noteq> h) (timers st),
                   activeRequests := AList.delete i (activeRequests st),
                   trace := trace st @ [Emit (Error i p err), Log ''emit error''],
                   isProcessing := False\<rparr>) \<and>
         map_of (AList.delete i (activeRequests st)) i = None"
  using assms
  by (simp add: handleError_Some finish_def emit_def console_log_def delete_notin_dom map_of_eq_None_iff)

text \<open>
  An instance: request 1 is active, request 2 is pending, nobody listens; after the
  rejection request 2 has been admitted.
\<close>

theorem unhandled_error_event_witness:
  "handleError 1 (Reason 3) []
      ((init 2 100 None :: (nat, nat, nat) state)
         \<lparr>queue := [(2, 8)], activeRequests := [(1, 0, 7)], isProcessing := True,
          requestCounter := 2, timers := [(0, 100, TimeoutCb 1)], nextHandle := 1\<rparr>)
     = (init 2 100 None)
         \<lparr>queue := [], activeRequests := [(2, 1, 8)], isProcessing := True,
          requestCounter := 2, timers := [(1, 100, TimeoutCb 2)], nextHandle := 2,
          sendJobs := [(2, 8)],
          trace := [Emit (Error 1 7 (Reason 3)), Log ''emit error'']\<rparr>"
  using unhandled_error_event[of
      "(init 2 100 None :: (nat, nat, nat) state)
         \<lparr>queue := [(2, 8)], activeRequests := [(1, 0, 7)], isProcessing := True,
          requestCounter := 2, timers := [(0, 100, TimeoutCb 1)], nextHandle := 1\<rparr>"
      1 0 7 "Reason 3" "init 2 100 None :: (nat, nat, nat) state"]
  by (simp add: init_def scheduleNextProcess_def tryProcessNext_def setTimeout_def)

end
